theory Spec2Isabelle
  imports Main "HOL-Library.Sublist"
begin

section \<open>JavaScript values\<close>

text \<open>
  The schema document, the schema fragments and the tool arguments are values produced by
  \<^verbatim>\<open>JSON.parse\<close> and typed \<^verbatim>\<open>any\<close> in the source. They are modelled by one datatype.
  An object is the list of its own enumerable properties in the order \<^verbatim>\<open>Object.entries\<close>
  reports them (array-index keys ascending, then the other keys in insertion order); its keys
  are pairwise distinct. \<open>JUndefined\<close> is the value of a missing property. Numbers are
  the integers; a character stands for one UTF-16 code unit.
\<close>

datatype json =
    JUndefined
  | JNull
  | JBool bool
  | JNum int
  | JStr string
  | JArr "json list"
  | JObj "(string \<times> json) list"

text \<open>
  Every \<^verbatim>\<open>throw\<close> of the source is a value. \<open>OutsideModel\<close> marks the inputs whose
  JavaScript behaviour this development does not describe (a property inherited from a
  prototype, a comparison by object identity, a number that is no safe integer); no theorem
  below concludes anything about the code from it.
\<close>

datatype error =
    SchemaParseError
  | TypeError
  | RangeError
  | Error string
  | OutsideModel

fun sequence_sum :: "('e + 'a) list \<Rightarrow> 'e + 'a list" where
  "sequence_sum [] = Inr []"
| "sequence_sum (x # xs) =
     (case x of
        Inl e \<Rightarrow> Inl e
      | Inr v \<Rightarrow> (case sequence_sum xs of Inl e \<Rightarrow> Inl e | Inr vs \<Rightarrow> Inr (v # vs)))"

fun truthy :: "json \<Rightarrow> bool" where
  "truthy JUndefined = False"
| "truthy JNull = False"
| "truthy (JBool b) = b"
| "truthy (JNum n) = (n \<noteq> 0)"
| "truthy (JStr s) = (s \<noteq> [])"
| "truthy (JArr xs) = True"
| "truthy (JObj ps) = True"

fun nullish :: "json \<Rightarrow> bool" where
  "nullish JUndefined = True"
| "nullish JNull = True"
| "nullish v = False"

subsection \<open>Strings\<close>

definition is_digit :: "char \<Rightarrow> bool" where
  "is_digit c = ((48::nat) \<le> of_char c \<and> of_char c \<le> (57::nat))"

definition digit_char :: "nat \<Rightarrow> char" where
  "digit_char d = char_of (48 + d)"

function show_nat :: "nat \<Rightarrow> string" where
  "show_nat n = (if n < 10 then [digit_char n] else show_nat (n div 10) @ [digit_char (n mod 10)])"
  by pat_completeness auto
termination
  by (relation "measure id") auto

definition show_int :: "int \<Rightarrow> string" where
  "show_int i = (if i < 0 then CHR ''-'' # show_nat (nat (- i)) else show_nat (nat i))"

text \<open>The order of two canonical numeric strings by their values.\<close>

fun lex_less :: "string \<Rightarrow> string \<Rightarrow> bool" where
  "lex_less [] ys = (ys \<noteq> [])"
| "lex_less (x # xs) [] = False"
| "lex_less (x # xs) (y # ys) = ((of_char x :: nat) < of_char y \<or> (x = y \<and> lex_less xs ys))"

definition index_less :: "string \<Rightarrow> string \<Rightarrow> bool" where
  "index_less k k' = (length k < length k' \<or> (length k = length k' \<and> lex_less k k'))"

text \<open>An array index is a canonical numeric string below \<open>2^32 - 1\<close>.\<close>

definition isArrayIndex :: "string \<Rightarrow> bool" where
  "isArrayIndex k =
     (k \<noteq> [] \<and> list_all is_digit k \<and> (k = ''0'' \<or> hd k \<noteq> CHR ''0'')
      \<and> index_less k ''4294967295'')"

text \<open>
  \<^verbatim>\<open>toLowerCase\<close>, code unit by code unit: the capitals A to Z and, above them, the capitals
  from U+00C0 to U+00DE but the multiplication sign have their small letter 32 places on; all
  other code units below U+0100 are their own lower case.
\<close>

definition toLowerChar :: "char \<Rightarrow> char" where
  "toLowerChar c =
     (if (65 \<le> (of_char c :: nat) \<and> (of_char c :: nat) \<le> 90)
         \<or> (192 \<le> (of_char c :: nat) \<and> (of_char c :: nat) \<le> 222 \<and> (of_char c :: nat) \<noteq> 215)
      then char_of (of_char c + (32::nat)) else c)"

definition toLowerCase :: "string \<Rightarrow> string" where
  "toLowerCase s = map toLowerChar s"

text \<open>
  \<^verbatim>\<open>toUpperCase\<close> of the name of an HTTP method, the only string the compiler turns into
  capitals as a whole: such a name has the letters a to z and A to Z only.
\<close>

definition toUpperChar :: "char \<Rightarrow> char" where
  "toUpperChar c =
     (if 97 \<le> (of_char c :: nat) \<and> (of_char c :: nat) \<le> 122 then char_of (of_char c - (32::nat)) else c)"

definition toUpperCase :: "string \<Rightarrow> string" where
  "toUpperCase s = map toUpperChar s"

definition startsWith :: "string \<Rightarrow> string \<Rightarrow> bool" where
  "startsWith s p = (take (length p) s = p)"

text \<open>\<^verbatim>\<open>s.split(sep)\<close> for a separator of one character.\<close>

fun split_acc :: "char \<Rightarrow> string \<Rightarrow> string \<Rightarrow> string list" where
  "split_acc sep cur [] = [rev cur]"
| "split_acc sep cur (c # cs) =
     (if c = sep then rev cur # split_acc sep [] cs else split_acc sep (c # cur) cs)"

definition split :: "string \<Rightarrow> char \<Rightarrow> string list" where
  "split s sep = split_acc sep [] s"

fun join :: "string list \<Rightarrow> string \<Rightarrow> string" where
  "join [] sep = []"
| "join [s] sep = s"
| "join (s # t # ss) sep = s @ sep @ join (t # ss) sep"

subsection \<open>Objects\<close>

text \<open>The entries of an array or of a string seen as an object: its indices.\<close>

definition indexed :: "'a list \<Rightarrow> (string \<times> 'a) list" where
  "indexed xs = zip (map show_nat [0..<length xs]) xs"

text \<open>
  \<^verbatim>\<open>obj.name\<close> for a fixed name that no prototype defines (\<^verbatim>\<open>$ref\<close>, \<^verbatim>\<open>properties\<close>,
  \<^verbatim>\<open>body\<close>, ...), on a value that is neither \<^verbatim>\<open>undefined\<close> nor \<^verbatim>\<open>null\<close>: the
  own property of an object, \<^verbatim>\<open>undefined\<close> on everything else.
\<close>

fun field :: "json \<Rightarrow> string \<Rightarrow> json" where
  "field (JObj ps) k = (case map_of ps k of Some v \<Rightarrow> v | None \<Rightarrow> JUndefined)"
| "field v k = JUndefined"

text \<open>\<^verbatim>\<open>obj?.name\<close>: as \<open>field\<close>; \<^verbatim>\<open>undefined\<close> and \<^verbatim>\<open>null\<close> give \<^verbatim>\<open>undefined\<close> too.\<close>

definition opt_field :: "json \<Rightarrow> string \<Rightarrow> json" where
  "opt_field v k = field v k"

text \<open>The members every object inherits from \<^verbatim>\<open>Object.prototype\<close>.\<close>

definition protoMembers :: "string list" where
  "protoMembers =
     [''constructor'', ''toString'', ''toLocaleString'', ''valueOf'', ''hasOwnProperty'',
      ''isPrototypeOf'', ''propertyIsEnumerable'', ''__proto__'', ''__defineGetter__'',
      ''__defineSetter__'', ''__lookupGetter__'', ''__lookupSetter__'']"

text \<open>
  What \<^verbatim>\<open>obj[key]\<close> finds for a computed key: the value of a property of the value's own
  (\<^verbatim>\<open>undefined\<close> when there is none), or the member of that name that every object inherits
  from \<^verbatim>\<open>Object.prototype\<close>: a built-in function, and for \<^verbatim>\<open>__proto__\<close> the prototype
  object itself. A built-in is no value of a document; it is known by its name.
\<close>

datatype found =
    Value json
  | Builtin string

text \<open>
  \<^verbatim>\<open>obj[key]\<close>. On an object: the own property, else the inherited member, else
  \<^verbatim>\<open>undefined\<close>. On an array: the element at an index, and the length. On \<^verbatim>\<open>undefined\<close>
  and \<^verbatim>\<open>null\<close> a TypeError. The other members of an array and the members of strings,
  numbers and booleans depend on the version of the engine and are not described.
\<close>

fun getDyn :: "json \<Rightarrow> string \<Rightarrow> error + found" where
  "getDyn JUndefined k = Inl TypeError"
| "getDyn JNull k = Inl TypeError"
| "getDyn (JObj ps) k =
     (case map_of ps k of
        Some v \<Rightarrow> Inr (Value v)
      | None \<Rightarrow> if k \<in> set protoMembers then Inr (Builtin k) else Inr (Value JUndefined))"
| "getDyn (JArr xs) k =
     (case map_of (indexed xs) k of
        Some v \<Rightarrow> Inr (Value v)
      | None \<Rightarrow>
          if isArrayIndex k then Inr (Value JUndefined)
          else if k = ''length'' then Inr (Value (JNum (int (length xs))))
          else Inl OutsideModel)"
| "getDyn v k = Inl OutsideModel"

text \<open>
  \<^verbatim>\<open>obj[key] = value\<close> on an ordinary object whose prototype has no setter for the key: an
  existing property keeps its place, a new array index goes among the indices, any other new
  key goes last.
\<close>

definition key_before :: "string \<Rightarrow> string \<Rightarrow> bool" where
  "key_before k k' =
     (isArrayIndex k \<and> (if isArrayIndex k' then index_less k k' else True))"

fun obj_set :: "(string \<times> json) list \<Rightarrow> string \<Rightarrow> json \<Rightarrow> (string \<times> json) list" where
  "obj_set [] k v = [(k, v)]"
| "obj_set ((k', v') # ps) k v =
     (if k' = k then (k, v) # ps
      else if key_before k k' then (k, v) # (k', v') # ps
      else (k', v') # obj_set ps k v)"

text \<open>\<^verbatim>\<open>Object.entries(v)\<close>, and with it \<^verbatim>\<open>Object.keys(v)\<close>.\<close>

fun entries :: "json \<Rightarrow> error + (string \<times> json) list" where
  "entries JUndefined = Inl TypeError"
| "entries JNull = Inl TypeError"
| "entries (JObj ps) = Inr ps"
| "entries (JArr xs) = Inr (indexed xs)"
| "entries (JStr s) = Inr (indexed (map (\<lambda>c. JStr [c]) s))"
| "entries v = Inr []"

text \<open>
  \<^verbatim>\<open>String(v)\<close>. An object that has a property \<^verbatim>\<open>toString\<close> of its own (never a function
  in a parsed document) cannot be converted.
\<close>

fun toStr :: "json \<Rightarrow> error + string" where
  "toStr JUndefined = Inr ''undefined''"
| "toStr JNull = Inr ''null''"
| "toStr (JBool b) = Inr (if b then ''true'' else ''false'')"
| "toStr (JNum n) = (if \<bar>n\<bar> \<le> 9007199254740992 then Inr (show_int n) else Inl OutsideModel)"
| "toStr (JStr s) = Inr s"
| "toStr (JArr xs) =
     (case sequence_sum (map (\<lambda>x. if nullish x then Inr [] else toStr x) xs) of
        Inl e \<Rightarrow> Inl e
      | Inr ss \<Rightarrow> Inr (join ss '',''))"
| "toStr (JObj ps) =
     (if map_of ps ''toString'' = None then Inr ''[object Object]'' else Inl TypeError)"


section \<open>Operation index\<close>

definition isHttpMethod :: "string \<Rightarrow> bool" where
  "isHttpMethod method =
     (toLowerCase method \<in> set [''get'', ''post'', ''put'', ''patch'', ''delete'', ''head'', ''options''])"

definition has_key :: "json \<Rightarrow> string \<Rightarrow> bool" where
  "has_key obj k = (case obj of JObj ps \<Rightarrow> map_of ps k \<noteq> None | _ \<Rightarrow> False)"

text \<open>
  \<^verbatim>\<open>isOperation\<close> of the first parser: an object (an array has no such member) with a
  member \<^verbatim>\<open>operationId\<close>.
\<close>

definition isOperation1 :: "json \<Rightarrow> bool" where
  "isOperation1 obj = has_key obj ''operationId''"

text \<open>\<^verbatim>\<open>isOperation\<close> of the second parser: any of five members.\<close>

definition isOperation2 :: "json \<Rightarrow> bool" where
  "isOperation2 obj =
     (has_key obj ''operationId'' \<or> has_key obj ''summary'' \<or> has_key obj ''description''
      \<or> has_key obj ''parameters'' \<or> has_key obj ''responses'')"

text \<open>
  \<^verbatim>\<open>s.charAt(0).toUpperCase() + s.slice(1)\<close>. The capital of a code unit comes from the
  Unicode tables of the engine, which are no part of the repository: \<open>upper c\<close> is the
  upper case of the string of the one code unit \<open>c\<close>. It can be longer than one code unit (the
  capital of the sharp s is SS).
\<close>

definition capitalize :: "(char \<Rightarrow> string) \<Rightarrow> string \<Rightarrow> string" where
  "capitalize upper s = (case s of [] \<Rightarrow> [] | c # cs \<Rightarrow> upper c @ cs)"

text \<open>\<^verbatim>\<open>generateOperationId\<close> (second parser).\<close>

definition generateOperationId :: "(char \<Rightarrow> string) \<Rightarrow> string \<Rightarrow> string \<Rightarrow> string" where
  "generateOperationId upper method path =
     (let pathParts = filter (\<lambda>p. p \<noteq> [] \<and> \<not> startsWith p ''{'') (split path CHR ''/'');
          camelCasePath =
            concat (case pathParts of [] \<Rightarrow> [] | part # parts \<Rightarrow> part # map (capitalize upper) parts)
      in toLowerCase method @ capitalize upper camelCasePath)"

text \<open>
  \<^verbatim>\<open>getOperationInfo\<close> of the first parser. The result is the method key, the path template
  and the operation; \<open>None\<close> is \<^verbatim>\<open>undefined\<close>.
\<close>

fun find_method1 :: "string \<Rightarrow> string \<Rightarrow> (string \<times> json) list \<Rightarrow> (string \<times> string \<times> json) option" where
  "find_method1 operationId pathTemplate [] = None"
| "find_method1 operationId pathTemplate ((method, operation) # rest) =
     (if isOperation1 operation \<and> field operation ''operationId'' = JStr operationId
      then Some (method, pathTemplate, operation)
      else find_method1 operationId pathTemplate rest)"

fun find_path1 :: "string \<Rightarrow> (string \<times> json) list \<Rightarrow> error + (string \<times> string \<times> json) option" where
  "find_path1 operationId [] = Inr None"
| "find_path1 operationId ((pathTemplate, pathItem) # rest) =
     (case entries pathItem of
        Inl e \<Rightarrow> Inl e
      | Inr ms \<Rightarrow>
          (case find_method1 operationId pathTemplate ms of
             Some r \<Rightarrow> Inr (Some r)
           | None \<Rightarrow> find_path1 operationId rest))"

definition getOperationInfo1 :: "json \<Rightarrow> string \<Rightarrow> error + (string \<times> string \<times> json) option" where
  "getOperationInfo1 schema operationId =
     (if \<not> truthy schema then Inr None
      else case entries (field schema ''paths'') of
             Inl e \<Rightarrow> Inl e
           | Inr ps \<Rightarrow> find_path1 operationId ps)"

text \<open>
  \<^verbatim>\<open>getOperationInfo\<close> of the second parser: an operation without identifier is found under
  its generated one, and the operation returned carries the identifier.
\<close>

definition opId2 :: "(char \<Rightarrow> string) \<Rightarrow> string \<Rightarrow> string \<Rightarrow> json \<Rightarrow> json" where
  "opId2 upper method pathTemplate operation =
     (if truthy (field operation ''operationId'') then field operation ''operationId''
      else JStr (generateOperationId upper method pathTemplate))"

definition with_operationId :: "json \<Rightarrow> json \<Rightarrow> json" where
  "with_operationId operation opId =
     (case operation of JObj ps \<Rightarrow> JObj (obj_set ps ''operationId'' opId) | v \<Rightarrow> v)"

fun find_method2 :: "(char \<Rightarrow> string) \<Rightarrow> string \<Rightarrow> string \<Rightarrow> (string \<times> json) list \<Rightarrow> (string \<times> string \<times> json) option" where
  "find_method2 upper operationId pathTemplate [] = None"
| "find_method2 upper operationId pathTemplate ((method, operation) # rest) =
     (if isOperation2 operation \<and> opId2 upper method pathTemplate operation = JStr operationId
      then Some (method, pathTemplate, with_operationId operation (JStr operationId))
      else find_method2 upper operationId pathTemplate rest)"

fun find_path2 :: "(char \<Rightarrow> string) \<Rightarrow> string \<Rightarrow> (string \<times> json) list \<Rightarrow> error + (string \<times> string \<times> json) option" where
  "find_path2 upper operationId [] = Inr None"
| "find_path2 upper operationId ((pathTemplate, pathItem) # rest) =
     (case entries pathItem of
        Inl e \<Rightarrow> Inl e
      | Inr ms \<Rightarrow>
          (case find_method2 upper operationId pathTemplate ms of
             Some r \<Rightarrow> Inr (Some r)
           | None \<Rightarrow> find_path2 upper operationId rest))"

definition getOperationInfo2 :: "(char \<Rightarrow> string) \<Rightarrow> json \<Rightarrow> string \<Rightarrow> error + (string \<times> string \<times> json) option" where
  "getOperationInfo2 upper schema operationId =
     (if \<not> truthy schema then Inr None
      else case entries (field schema ''paths'') of
             Inl e \<Rightarrow> Inl e
           | Inr ps \<Rightarrow> find_path2 upper operationId ps)"

section \<open>Request dispatcher\<close>

text \<open>
  \<^verbatim>\<open>path.match(/{([^}]+)}/g)\<close>: the matches from left to right. A match starts at a brace,
  runs over at least one character other than the closing brace, and ends at the first
  closing brace; the search goes on behind it.
\<close>

function placeholders :: "string \<Rightarrow> string list" where
  "placeholders [] = []"
| "placeholders (c # cs) =
     (if c = CHR ''{'' \<and> takeWhile (\<lambda>d. d \<noteq> CHR ''}'') cs \<noteq> []
         \<and> dropWhile (\<lambda>d. d \<noteq> CHR ''}'') cs \<noteq> []
      then (c # takeWhile (\<lambda>d. d \<noteq> CHR ''}'') cs @ ''}'')
           # placeholders (tl (dropWhile (\<lambda>d. d \<noteq> CHR ''}'') cs))
      else placeholders cs)"
  by pat_completeness auto
termination
proof (relation "measure length")
  fix c :: char and cs :: string
  have "length (tl (dropWhile (\<lambda>d. d \<noteq> CHR ''}'') cs)) \<le> length cs"
    using length_dropWhile_le [of "\<lambda>d. d \<noteq> CHR ''}''" cs] by simp
  then show "(tl (dropWhile (\<lambda>d. d \<noteq> CHR ''}'') cs), c # cs) \<in> measure length"
    by simp
qed simp_all

text \<open>\<^verbatim>\<open>match.slice(1, -1)\<close>.\<close>

definition paramNameOf :: "string \<Rightarrow> string" where
  "paramNameOf m = butlast (tl m)"

text \<open>
  The replacement text of \<^verbatim>\<open>String.prototype.replace\<close> for a string pattern: \<^verbatim>\<open>$$\<close> is a
  dollar, \<^verbatim>\<open>$&\<close> the match, \<^verbatim>\<open>$`\<close> the text before it, \<^verbatim>\<open>$'\<close> the text behind it; any
  other character stands for itself.
\<close>

fun getSubstitution :: "string \<Rightarrow> string \<Rightarrow> string \<Rightarrow> string \<Rightarrow> string" where
  "getSubstitution matched pre post [] = []"
| "getSubstitution matched pre post [c] = [c]"
| "getSubstitution matched pre post (c # d # cs) =
     (if c = CHR ''$'' \<and> d = CHR ''$'' then CHR ''$'' # getSubstitution matched pre post cs
      else if c = CHR ''$'' \<and> d = CHR ''&'' then matched @ getSubstitution matched pre post cs
      else if c = CHR ''$'' \<and> d = CHR 0x60 then pre @ getSubstitution matched pre post cs
      else if c = CHR ''$'' \<and> d = CHR 0x27 then post @ getSubstitution matched pre post cs
      else c # getSubstitution matched pre post (d # cs))"

text \<open>The text before and behind the first occurrence of a pattern.\<close>

fun split_first :: "string \<Rightarrow> string \<Rightarrow> (string \<times> string) option" where
  "split_first pat [] = (if pat = [] then Some ([], []) else None)"
| "split_first pat (c # cs) =
     (if prefix pat (c # cs) then Some ([], drop (length pat) (c # cs))
      else (case split_first pat cs of None \<Rightarrow> None | Some (b, a) \<Rightarrow> Some (c # b, a)))"

text \<open>\<^verbatim>\<open>s.replace(pat, repl)\<close> for strings: the first occurrence only.\<close>

definition replace :: "string \<Rightarrow> string \<Rightarrow> string \<Rightarrow> string" where
  "replace s pat repl =
     (case split_first pat s of
        None \<Rightarrow> s
      | Some (b, a) \<Rightarrow> b @ getSubstitution pat b a repl @ a)"

text \<open>
  The calls on the HTTP client: the URL, the payload where the method takes one, and
  \<^verbatim>\<open>config.params\<close>.
\<close>

datatype client_call =
    ClientGet string json
  | ClientPost string json json
  | ClientPut string json json
  | ClientPatch string json json
  | ClientDelete string json

fun call_url :: "client_call \<Rightarrow> string" where
  "call_url (ClientGet u q) = u"
| "call_url (ClientPost u d q) = u"
| "call_url (ClientPut u d q) = u"
| "call_url (ClientPatch u d q) = u"
| "call_url (ClientDelete u q) = u"

fun call_params :: "client_call \<Rightarrow> json" where
  "call_params (ClientGet u q) = q"
| "call_params (ClientPost u d q) = q"
| "call_params (ClientPut u d q) = q"
| "call_params (ClientPatch u d q) = q"
| "call_params (ClientDelete u q) = q"

fun call_data :: "client_call \<Rightarrow> json option" where
  "call_data (ClientGet u q) = None"
| "call_data (ClientPost u d q) = Some d"
| "call_data (ClientPut u d q) = Some d"
| "call_data (ClientPatch u d q) = Some d"
| "call_data (ClientDelete u q) = None"

text \<open>
  \<^verbatim>\<open>replace\<close> calls a replacement that is a function with the match, its position and the
  whole string, and with no \<^verbatim>\<open>this\<close>. Of the functions of \<^verbatim>\<open>Object.prototype\<close>,
  \<^verbatim>\<open>toString\<close> then names the missing \<^verbatim>\<open>this\<close>, \<^verbatim>\<open>constructor\<close> (the function
  \<^verbatim>\<open>Object\<close>) wraps the match, which converts back to itself, \<^verbatim>\<open>isPrototypeOf\<close> answers
  \<^verbatim>\<open>false\<close> for a string, and the others throw a TypeError for the missing \<^verbatim>\<open>this\<close>.
\<close>

definition callReplacer :: "string \<Rightarrow> string \<Rightarrow> error + string" where
  "callReplacer name matched =
     (if name = ''toString'' then Inr ''[object Undefined]''
      else if name = ''constructor'' then Inr matched
      else if name = ''isPrototypeOf'' then Inr ''false''
      else Inl TypeError)"

text \<open>
  \<^verbatim>\<open>url.replace(match, value)\<close> for what \<^verbatim>\<open>args[paramName]\<close> found. A value is converted
  to a string first, and the string is a replacement pattern. A function is called when the
  match occurs, and its result is inserted as it is. The prototype object (\<^verbatim>\<open>__proto__\<close>) is
  no function: it converts to \<^verbatim>\<open>[object Object]\<close>.
\<close>

definition replaceWith :: "string \<Rightarrow> string \<Rightarrow> found \<Rightarrow> error + string" where
  "replaceWith s pat replaceValue =
     (case replaceValue of
        Value v \<Rightarrow> (case toStr v of Inl e \<Rightarrow> Inl e | Inr r \<Rightarrow> Inr (replace s pat r))
      | Builtin name \<Rightarrow>
          if name = ''__proto__'' then Inr (replace s pat ''[object Object]'')
          else (case split_first pat s of
                  None \<Rightarrow> Inr s
                | Some (b, a) \<Rightarrow>
                    (case callReplacer name pat of
                       Inl e \<Rightarrow> Inl e
                     | Inr r \<Rightarrow> Inr (b @ r @ a))))"

text \<open>
  The loop over the placeholders of the path: the state is the URL and \<^verbatim>\<open>pathParams\<close>.
\<close>

fun substitute :: "string list \<Rightarrow> json \<Rightarrow> string \<times> string list \<Rightarrow> error + string \<times> string list" where
  "substitute [] args st = Inr st"
| "substitute (m # ms) args (url, pathParams) =
     (case getDyn args (paramNameOf m) of
        Inl e \<Rightarrow> Inl e
      | Inr v \<Rightarrow>
          if v \<noteq> Value JUndefined
          then (case replaceWith url m v of
                  Inl e \<Rightarrow> Inl e
                | Inr url' \<Rightarrow> substitute ms args (url', pathParams @ [paramNameOf m]))
          else substitute ms args (url, pathParams))"

text \<open>The loop over the arguments that fills \<^verbatim>\<open>queryParams\<close>.\<close>

definition queryStep :: "string list \<Rightarrow> string \<times> json \<Rightarrow> (string \<times> json) list \<Rightarrow> (string \<times> json) list" where
  "queryStep pathParams kv queryParams =
     (if fst kv \<noteq> ''body'' \<and> fst kv \<notin> set pathParams \<and> \<not> startsWith (fst kv) ''_''
      then obj_set queryParams (fst kv) (snd kv) else queryParams)"

definition sendRequest :: "string \<Rightarrow> string \<Rightarrow> json \<Rightarrow> json \<Rightarrow> error + client_call" where
  "sendRequest method url bodyData params =
     (if toLowerCase method = ''get'' then Inr (ClientGet url params)
      else if toLowerCase method = ''post'' then Inr (ClientPost url bodyData params)
      else if toLowerCase method = ''put'' then Inr (ClientPut url bodyData params)
      else if toLowerCase method = ''patch'' then Inr (ClientPatch url bodyData params)
      else if toLowerCase method = ''delete'' then Inr (ClientDelete url params)
      else Inl (Error (''Unsupported HTTP method: '' @ method)))"

text \<open>
  \<^verbatim>\<open>handleOpenAPITool\<close>. The parser's \<^verbatim>\<open>getOperationInfo\<close> is the first argument. The
  arguments of a tool call are an object, or \<^verbatim>\<open>undefined\<close> when the caller sent none;
  reading \<^verbatim>\<open>args.body\<close> throws for \<^verbatim>\<open>undefined\<close> and \<^verbatim>\<open>null\<close>.
\<close>

definition handleOpenAPITool ::
  "(string \<Rightarrow> error + (string \<times> string \<times> json) option) \<Rightarrow> string \<Rightarrow> json \<Rightarrow> error + client_call" where
  "handleOpenAPITool getOperationInfo operationId args =
     (case getOperationInfo operationId of
        Inl e \<Rightarrow> Inl e
      | Inr None \<Rightarrow> Inl (Error (''Unknown operation: '' @ operationId))
      | Inr (Some (method, path, operation)) \<Rightarrow>
          (case args of
             JUndefined \<Rightarrow> Inl TypeError
           | JNull \<Rightarrow> Inl TypeError
           | JObj ps \<Rightarrow>
               (case substitute (placeholders path) args (path, []) of
                  Inl e \<Rightarrow> Inl e
                | Inr (url, pathParams) \<Rightarrow>
                    (let queryParams = fold (queryStep pathParams) ps [];
                         params = (if length queryParams > 0 then JObj queryParams else JUndefined)
                     in sendRequest method url (field args ''body'') params))
           | _ \<Rightarrow> Inl OutsideModel))"

section \<open>Reference resolver\<close>

text \<open>
  The errors of the parser are \<^verbatim>\<open>SchemaParseError\<close>s and the TypeErrors of the engine;
  their messages are left out.
\<close>

definition string_schema :: json where
  "string_schema = JObj [(''type'', JStr ''string'')]"

definition object_schema :: json where
  "object_schema = JObj [(''type'', JStr ''object'')]"

text \<open>\<^verbatim>\<open>{...v}\<close>: the own enumerable properties of a value.\<close>

fun spread :: "json \<Rightarrow> (string \<times> json) list" where
  "spread (JObj ps) = ps"
| "spread (JArr xs) = indexed xs"
| "spread (JStr s) = indexed (map (\<lambda>c. JStr [c]) s)"
| "spread v = []"

text \<open>\<^verbatim>\<open>[...v]\<close> and \<^verbatim>\<open>for (const x of v)\<close>: only arrays and strings can be iterated.\<close>

fun iterate :: "json \<Rightarrow> error + json list" where
  "iterate (JArr xs) = Inr xs"
| "iterate (JStr s) = Inr (map (\<lambda>c. JStr [c]) s)"
| "iterate v = Inl TypeError"

text \<open>
  \<^verbatim>\<open>Object.assign(target, source)\<close>: the properties of the source are set one by one. The key
  \<^verbatim>\<open>__proto__\<close> would reach the setter of the prototype.
\<close>

fun assign_entries :: "(string \<times> json) list \<Rightarrow> (string \<times> json) list \<Rightarrow> error + (string \<times> json) list" where
  "assign_entries target [] = Inr target"
| "assign_entries target ((k, v) # rest) =
     (if k = ''__proto__'' then Inl OutsideModel else assign_entries (obj_set target k v) rest)"

definition object_assign :: "(string \<times> json) list \<Rightarrow> json \<Rightarrow> error + (string \<times> json) list" where
  "object_assign target source = assign_entries target (spread source)"

text \<open>
  \<^verbatim>\<open>[...new Set(xs)]\<close>: the first occurrence of every value, in order. A set compares
  objects and arrays by identity, which a value does not tell.
\<close>

fun primitive :: "json \<Rightarrow> bool" where
  "primitive (JArr xs) = False"
| "primitive (JObj ps) = False"
| "primitive v = True"

definition unique :: "json list \<Rightarrow> json list" where
  "unique xs = fold (\<lambda>x seen. if x \<in> set seen then seen else seen @ [x]) xs []"

text \<open>
  \<^verbatim>\<open>mergeSchemas\<close> (the same in both parsers). The state of the loop is
  \<^verbatim>\<open>merged.properties\<close> and \<^verbatim>\<open>merged.required\<close>.
\<close>

fun merge_loop :: "json list \<Rightarrow> (string \<times> json) list \<times> json list \<Rightarrow> error + (string \<times> json) list \<times> json list" where
  "merge_loop [] acc = Inr acc"
| "merge_loop (schema # rest) (props, req) =
     (if nullish schema then Inl TypeError
      else case (if truthy (field schema ''properties'')
                 then object_assign props (field schema ''properties'') else Inr props) of
             Inl e \<Rightarrow> Inl e
           | Inr props' \<Rightarrow>
               (case (if truthy (field schema ''required'')
                      then iterate (field schema ''required'') else Inr []) of
                  Inl e \<Rightarrow> Inl e
                | Inr more \<Rightarrow> merge_loop rest (props', req @ more)))"

definition mergeSchemas :: "json list \<Rightarrow> error + json" where
  "mergeSchemas schemas =
     (case merge_loop schemas ([], []) of
        Inl e \<Rightarrow> Inl e
      | Inr (props, req) \<Rightarrow>
          if \<not> list_all primitive req then Inl OutsideModel
          else if unique req = []
          then Inr (JObj [(''type'', JStr ''object''), (''properties'', JObj props)])
          else Inr (JObj [(''type'', JStr ''object''), (''properties'', JObj props),
                          (''required'', JArr (unique req))]))"

text \<open>
  \<^verbatim>\<open>resolveRef\<close> of the first parser: the walk starts at the document, and a segment that is
  missing or falsy ends it with the fallback. A walk that has reached a built-in ends there;
  the members of a built-in are not described.
\<close>

fun walk1 :: "json \<Rightarrow> string list \<Rightarrow> error + found" where
  "walk1 current [] = Inr (Value current)"
| "walk1 current (part # parts) =
     (case getDyn current part of
        Inl e \<Rightarrow> Inl e
      | Inr (Value v) \<Rightarrow> if \<not> truthy v then Inr (Value object_schema) else walk1 v parts
      | Inr (Builtin name) \<Rightarrow> if parts = [] then Inr (Builtin name) else Inl OutsideModel)"

definition resolveRef1 :: "json \<Rightarrow> string \<Rightarrow> error + found" where
  "resolveRef1 schema ref =
     (if \<not> truthy schema then Inl SchemaParseError
      else walk1 schema (tl (split ref CHR ''/'')))"

text \<open>
  \<^verbatim>\<open>resolveRef\<close> of the second parser: the walk starts at the definitions of a Swagger 2.0
  document or at the components of an OpenAPI 3.x document when the first segment names them,
  and a segment that is missing or falsy throws.
\<close>

fun walk2 :: "json \<Rightarrow> string list \<Rightarrow> error + found" where
  "walk2 current [] = Inr (Value current)"
| "walk2 current (part # parts) =
     (case (if nullish current then Inr (Value JUndefined) else getDyn current part) of
        Inl e \<Rightarrow> Inl e
      | Inr (Value v) \<Rightarrow> if \<not> truthy v then Inl SchemaParseError else walk2 v parts
      | Inr (Builtin name) \<Rightarrow> if parts = [] then Inr (Builtin name) else Inl OutsideModel)"

definition resolveRef2 :: "bool \<Rightarrow> json \<Rightarrow> string \<Rightarrow> error + found" where
  "resolveRef2 isOpenAPI3 schema ref =
     (if \<not> truthy schema then Inl SchemaParseError
      else let parts = tl (split ref CHR ''/'') in
        if \<not> isOpenAPI3 \<and> parts \<noteq> [] \<and> hd parts = ''definitions''
        then walk2 (field schema ''definitions'') (tl parts)
        else if isOpenAPI3 \<and> parts \<noteq> [] \<and> hd parts = ''components''
        then walk2 (field schema ''components'') (tl parts)
        else walk2 schema parts)"

text \<open>
  What the resolver makes of the target of a reference. A built-in has none of the members
  the resolver reads and no enumerable property of its own: the resolver treats it as it
  treats the object without properties.
\<close>

fun fragment_of :: "found \<Rightarrow> json" where
  "fragment_of (Value v) = v"
| "fragment_of (Builtin name) = JObj []"

text \<open>\<^verbatim>\<open>schemas[0]\<close>.\<close>

fun first_of :: "json \<Rightarrow> json" where
  "first_of (JArr xs) = (case xs of [] \<Rightarrow> JUndefined | x # _ \<Rightarrow> x)"
| "first_of (JStr s) = (case s of [] \<Rightarrow> JUndefined | c # _ \<Rightarrow> JStr [c])"
| "first_of (JObj ps) = (case map_of ps ''0'' of None \<Rightarrow> JUndefined | Some v \<Rightarrow> v)"
| "first_of v = JUndefined"

definition placeholder_schema :: "string \<Rightarrow> json" where
  "placeholder_schema ref =
     JObj [(''type'', JStr ''object''), (''description'', JStr (''Circular reference to '' @ ref))]"

text \<open>
  The references a value holds: the strings under a key \<^verbatim>\<open>$ref\<close>, at any depth. They
  bound the recursion of the first resolver.
\<close>

fun ref_target :: "string \<Rightarrow> json \<Rightarrow> string list" where
  "ref_target k (JStr r) = (if k = ''$ref'' then [r] else [])"
| "ref_target k v = []"

fun refs_of :: "json \<Rightarrow> string list" where
  "refs_of (JObj ps) = concat (map (\<lambda>(k, v). ref_target k v @ refs_of v) ps)"
| "refs_of (JArr xs) = concat (map refs_of xs)"
| "refs_of v = []"

definition resolve_measure :: "json \<times> json \<times> string list \<Rightarrow> nat \<times> nat" where
  "resolve_measure = (\<lambda>(doc, schema, visited).
     (card ((set (refs_of doc) \<union> set (refs_of schema)) - set visited), size schema))"

lemma size_obj_value: "(k, v) \<in> set ps \<Longrightarrow> size v < size (JObj ps)"
  by (induction ps) auto

lemma size_arr_elem: "x \<in> set xs \<Longrightarrow> size x < size (JArr xs)"
  by (induction xs) auto

lemma refs_obj_value: "(k, v) \<in> set ps \<Longrightarrow> set (refs_of v) \<subseteq> set (refs_of (JObj ps))"
  by (induction ps) auto

lemma refs_arr_elem: "x \<in> set xs \<Longrightarrow> set (refs_of x) \<subseteq> set (refs_of (JArr xs))"
  by (induction xs) auto

lemma field_size: "truthy (field s k) \<Longrightarrow> size (field s k) < size s"
proof (cases s)
  case (JObj ps)
  assume t: "truthy (field s k)"
  show ?thesis
  proof (cases "map_of ps k")
    case None
    with t JObj show ?thesis by simp
  next
    case (Some v)
    then have "(k, v) \<in> set ps" by (rule map_of_SomeD)
    from size_obj_value [OF this] Some JObj show ?thesis by simp
  qed
qed simp_all

lemma field_refs: "set (refs_of (field s k)) \<subseteq> set (refs_of s)"
proof (cases s)
  case (JObj ps)
  show ?thesis
  proof (cases "map_of ps k")
    case None
    with JObj show ?thesis by simp
  next
    case (Some v)
    then have "(k, v) \<in> set ps" by (rule map_of_SomeD)
    from refs_obj_value [OF this] Some JObj show ?thesis by simp
  qed
qed simp_all

lemma ref_in_refs: "field s ''$ref'' = JStr r \<Longrightarrow> r \<in> set (refs_of s)"
proof (cases s)
  case (JObj ps)
  assume "field s ''$ref'' = JStr r"
  with JObj have "(''$ref'', JStr r) \<in> set ps"
    by (auto split: option.splits dest: map_of_SomeD)
  then show ?thesis unfolding JObj by (induction ps) auto
qed simp_all

lemma indexed_value: "(k, v) \<in> set (indexed xs) \<Longrightarrow> v \<in> set xs"
  by (auto simp: indexed_def dest: set_zip_rightD)

lemma spread_size: "(k, v) \<in> set (spread x) \<Longrightarrow> size v \<le> size x"
  by (cases x) (auto dest!: indexed_value dest: size_obj_value size_arr_elem less_imp_le)

lemma spread_refs: "(k, v) \<in> set (spread x) \<Longrightarrow> set (refs_of v) \<subseteq> set (refs_of x)"
proof (cases x)
  case (JObj ps)
  assume "(k, v) \<in> set (spread x)"
  with JObj refs_obj_value show ?thesis by simp
next
  case (JArr xs)
  assume "(k, v) \<in> set (spread x)"
  with JArr have "v \<in> set xs" by (auto dest: indexed_value)
  from refs_arr_elem [OF this] JArr show ?thesis by simp
next
  case (JStr s)
  assume "(k, v) \<in> set (spread x)"
  with JStr have "v \<in> set (map (\<lambda>c. JStr [c]) s)" by (auto dest: indexed_value)
  then show ?thesis by auto
qed simp_all

lemma first_of_size: "size (first_of x) \<le> size x"
  by (cases x) (auto split: list.splits option.splits dest!: map_of_SomeD dest: size_obj_value less_imp_le)

lemma first_of_refs: "set (refs_of (first_of x)) \<subseteq> set (refs_of x)"
proof (cases x)
  case (JObj ps)
  show ?thesis
  proof (cases "map_of ps ''0''")
    case None
    with JObj show ?thesis by simp
  next
    case (Some v)
    then have "(''0'', v) \<in> set ps" by (rule map_of_SomeD)
    from refs_obj_value [OF this] Some JObj show ?thesis by simp
  qed
qed (auto split: list.splits)

lemma getDyn_refs: "getDyn c k = Inr v \<Longrightarrow> set (refs_of (fragment_of v)) \<subseteq> set (refs_of c)"
proof (cases c)
  case (JObj ps)
  assume "getDyn c k = Inr v"
  with JObj have "fragment_of v = JUndefined \<or> fragment_of v = JObj [] \<or> (k, fragment_of v) \<in> set ps"
    by (auto split: option.splits if_splits dest: map_of_SomeD)
  with JObj refs_obj_value show ?thesis by auto
next
  case (JArr xs)
  assume "getDyn c k = Inr v"
  with JArr have "fragment_of v = JUndefined \<or> fragment_of v = JNum (int (length xs)) \<or> fragment_of v \<in> set xs"
    by (auto split: option.splits if_splits dest!: map_of_SomeD indexed_value)
  with JArr refs_arr_elem show ?thesis by auto
qed simp_all

lemma walk1_refs: "walk1 c parts = Inr v \<Longrightarrow> set (refs_of (fragment_of v)) \<subseteq> set (refs_of c)"
proof (induction parts arbitrary: c)
  case Nil
  then show ?case by auto
next
  case (Cons part parts)
  from Cons.prems obtain w where g: "getDyn c part = Inr w"
    by (cases "getDyn c part") simp_all
  show ?case
  proof (cases w)
    case (Value u)
    show ?thesis
    proof (cases "truthy u")
      case True
      with Cons.prems g Value have "walk1 u parts = Inr v" by simp
      from Cons.IH [OF this] getDyn_refs [OF g] Value show ?thesis by auto
    next
      case False
      with Cons.prems g Value have "v = Value object_schema" by simp
      then show ?thesis by (simp add: object_schema_def)
    qed
  next
    case (Builtin name)
    with Cons.prems g have "v = Builtin name" by (auto split: if_splits)
    then show ?thesis by simp
  qed
qed

lemma resolveRef1_refs:
  "resolveRef1 doc ref = Inr v \<Longrightarrow> set (refs_of (fragment_of v)) \<subseteq> set (refs_of doc)"
  by (auto simp: resolveRef1_def split: if_splits dest: walk1_refs)

lemma resolve_measure_sub:
  assumes "set (refs_of s') \<subseteq> set (refs_of s)" "size s' < size s"
  shows "((doc, s', vis), (doc, s, vis)) \<in> inv_image (less_than <*lex*> less_than) resolve_measure"
proof -
  let ?A' = "(set (refs_of doc) \<union> set (refs_of s')) - set vis"
  let ?A = "(set (refs_of doc) \<union> set (refs_of s)) - set vis"
  have "?A' \<subseteq> ?A" using assms(1) by auto
  then have "card ?A' \<le> card ?A" by (intro card_mono) auto
  then show ?thesis using assms(2) by (auto simp: resolve_measure_def)
qed

lemma resolve_measure_ref:
  assumes "field s ''$ref'' = JStr r" "r \<notin> set vis" "set (refs_of s') \<subseteq> set (refs_of doc)"
  shows "((doc, s', r # vis), (doc, s, vis)) \<in> inv_image (less_than <*lex*> less_than) resolve_measure"
proof -
  let ?A' = "(set (refs_of doc) \<union> set (refs_of s')) - set (r # vis)"
  let ?A = "(set (refs_of doc) \<union> set (refs_of s)) - set vis"
  have r: "r \<in> ?A" using ref_in_refs [OF assms(1)] assms(2) by simp
  have "?A' \<subseteq> ?A - {r}" using assms(3) by auto
  then have "card ?A' \<le> card (?A - {r})" by (intro card_mono) auto
  also have "\<dots> < card ?A" using r by (intro card_Diff1_less) auto
  finally show ?thesis by (auto simp: resolve_measure_def)
qed

text \<open>
  \<^verbatim>\<open>resolveSchema\<close> of the first parser. The set \<^verbatim>\<open>visited\<close> is passed down: the source
  adds a reference before the recursive call and deletes it behind it, so every call returns
  with the set it was given. For a value that is no object the copy \<^verbatim>\<open>{...schema}\<close> has only
  index keys, so it has neither \<^verbatim>\<open>properties\<close> nor \<^verbatim>\<open>items\<close>.
\<close>

function resolveSchema1 :: "json \<Rightarrow> json \<Rightarrow> string list \<Rightarrow> error + json" where
  "resolveSchema1 doc schema visited =
     (if \<not> truthy schema then Inr string_schema
      else if truthy (field schema ''$ref'') then
        (case field schema ''$ref'' of
           JStr ref \<Rightarrow>
             if ref \<in> set visited then Inr (placeholder_schema ref)
             else (case resolveRef1 doc ref of
                     Inl e \<Rightarrow> Inl e
                   | Inr resolved \<Rightarrow> resolveSchema1 doc (fragment_of resolved) (ref # visited))
         | _ \<Rightarrow> Inl TypeError)
      else if truthy (field schema ''allOf'') then
        (case field schema ''allOf'' of
           JArr xs \<Rightarrow>
             (case sequence_sum (map (\<lambda>s. resolveSchema1 doc s visited) xs) of
                Inl e \<Rightarrow> Inl e
              | Inr rs \<Rightarrow> mergeSchemas rs)
         | _ \<Rightarrow> Inl TypeError)
      else if truthy (field schema ''oneOf'') \<or> truthy (field schema ''anyOf'') then
        resolveSchema1 doc
          (first_of (if truthy (field schema ''oneOf'') then field schema ''oneOf''
                     else field schema ''anyOf''))
          visited
      else
        (case schema of
           JObj ps \<Rightarrow>
             (case (if truthy (field schema ''properties'')
                    then (case sequence_sum
                                 (map (\<lambda>(key, value).
                                         case resolveSchema1 doc value visited of
                                           Inl e \<Rightarrow> Inl e
                                         | Inr r \<Rightarrow> Inr (key, r))
                                      (spread (field schema ''properties''))) of
                            Inl e \<Rightarrow> Inl e
                          | Inr es \<Rightarrow> Inr (obj_set ps ''properties'' (JObj es)))
                    else Inr ps) of
                Inl e \<Rightarrow> Inl e
              | Inr ps' \<Rightarrow>
                  if truthy (field schema ''items'')
                  then (case resolveSchema1 doc (field schema ''items'') visited of
                          Inl e \<Rightarrow> Inl e
                        | Inr r \<Rightarrow> Inr (JObj (obj_set ps' ''items'' r)))
                  else Inr (JObj ps'))
         | _ \<Rightarrow> Inr (JObj (spread schema))))"
  by pat_completeness auto
termination resolveSchema1
proof (relation "inv_image (less_than <*lex*> less_than) resolve_measure", goal_cases)
  case 1
  show ?case by (intro wf_inv_image wf_lex_prod wf_less_than)
next
  case (2 doc schema visited ref resolved)
  then show ?case by (intro resolve_measure_ref) (auto dest: resolveRef1_refs)
next
  case (3 doc schema visited xs s)
  have "size s < size (JArr xs)" using 3 by (auto dest: size_arr_elem)
  moreover have "size (JArr xs) < size schema" using 3 field_size [of schema "''allOf''"] by simp
  moreover have "set (refs_of s) \<subseteq> set (refs_of (JArr xs))" using 3 by (auto dest: refs_arr_elem)
  moreover have "set (refs_of (JArr xs)) \<subseteq> set (refs_of schema)"
    using 3 field_refs [of schema "''allOf''"] by simp
  ultimately show ?case by (intro resolve_measure_sub) auto
next
  case (4 doc schema visited)
  let ?x = "if truthy (field schema ''oneOf'') then field schema ''oneOf'' else field schema ''anyOf''"
  have t: "truthy ?x" using 4 by auto
  have "size ?x < size schema" using t field_size by (auto split: if_splits)
  moreover have "set (refs_of ?x) \<subseteq> set (refs_of schema)" using field_refs by auto
  ultimately show ?case
    using first_of_size [of ?x] first_of_refs [of ?x]
    by (intro resolve_measure_sub) (auto simp del: first_of.simps field.simps)
next
  case (5 doc schema visited ps kv key val)
  let ?p = "field schema ''properties''"
  have kv: "(key, val) \<in> set (spread ?p)" using 5 by (simp del: field.simps)
  have "size ?p < size schema" by (rule field_size) (use 5 in \<open>simp del: field.simps\<close>)
  moreover have "set (refs_of ?p) \<subseteq> set (refs_of schema)" by (rule field_refs)
  ultimately show ?case
    using spread_size [OF kv] spread_refs [OF kv]
    by (intro resolve_measure_sub) (auto simp del: field.simps)
next
  case (6 doc schema visited ps ps')
  then show ?case
    by (intro resolve_measure_sub field_refs field_size) simp
qed

declare resolveSchema1.simps [simp del]

text \<open>
  \<^verbatim>\<open>resolveSchema\<close> of the second parser has no set of visited references. Its recursion is
  bounded by the call stack alone: \<open>stack\<close> is the number of nested calls the engine allows,
  and the call beyond it raises the RangeError of a stack overflow.
\<close>

fun resolveSchema2 :: "bool \<Rightarrow> nat \<Rightarrow> json \<Rightarrow> json \<Rightarrow> error + json" where
  "resolveSchema2 isOpenAPI3 0 doc schema = Inl RangeError"
| "resolveSchema2 isOpenAPI3 (Suc stack) doc schema =
     (if \<not> truthy schema then Inr string_schema
      else if truthy (field schema ''$ref'') then
        (case field schema ''$ref'' of
           JStr ref \<Rightarrow>
             (case resolveRef2 isOpenAPI3 doc ref of
                Inl e \<Rightarrow> Inl e
              | Inr resolved \<Rightarrow> resolveSchema2 isOpenAPI3 stack doc (fragment_of resolved))
         | _ \<Rightarrow> Inl TypeError)
      else if truthy (field schema ''allOf'') then
        (case field schema ''allOf'' of
           JArr xs \<Rightarrow>
             (case sequence_sum (map (\<lambda>s. resolveSchema2 isOpenAPI3 stack doc s) xs) of
                Inl e \<Rightarrow> Inl e
              | Inr rs \<Rightarrow> mergeSchemas rs)
         | _ \<Rightarrow> Inl TypeError)
      else if truthy (field schema ''oneOf'') \<or> truthy (field schema ''anyOf'') then
        resolveSchema2 isOpenAPI3 stack doc
          (first_of (if truthy (field schema ''oneOf'') then field schema ''oneOf''
                     else field schema ''anyOf''))
      else
        (case schema of
           JObj ps \<Rightarrow>
             (case (if truthy (field schema ''properties'')
                    then (case sequence_sum
                                 (map (\<lambda>(key, value).
                                         case resolveSchema2 isOpenAPI3 stack doc value of
                                           Inl e \<Rightarrow> Inl e
                                         | Inr r \<Rightarrow> Inr (key, r))
                                      (spread (field schema ''properties''))) of
                            Inl e \<Rightarrow> Inl e
                          | Inr es \<Rightarrow> Inr (obj_set ps ''properties'' (JObj es)))
                    else Inr ps) of
                Inl e \<Rightarrow> Inl e
              | Inr ps' \<Rightarrow>
                  if truthy (field schema ''items'')
                  then (case resolveSchema2 isOpenAPI3 stack doc (field schema ''items'') of
                          Inl e \<Rightarrow> Inl e
                        | Inr r \<Rightarrow> Inr (JObj (obj_set ps' ''items'' r)))
                  else Inr (JObj ps'))
         | _ \<Rightarrow> Inr (JObj (spread schema))))"


section \<open>The first resolver with its set of visited references as state\<close>

text \<open>
  In the source the set \<^verbatim>\<open>visited\<close> is one object, shared by all the calls of a resolution and
  changed in place by \<^verbatim>\<open>add\<close> and \<^verbatim>\<open>delete\<close>. Here every call takes the set and returns it
  with its result. An exception leaves the resolution (nothing in it catches), and the set,
  made for that resolution, is not read again: so a thrown error carries no set. The first
  argument bounds the depth of the nested calls; the result is \<open>None\<close> when the bound is
  exceeded.
\<close>

fun map_st :: "('a \<Rightarrow> string list \<Rightarrow> (error + 'b \<times> string list) option) \<Rightarrow> 'a list \<Rightarrow> string list
               \<Rightarrow> (error + 'b list \<times> string list) option" where
  "map_st f [] visited = Some (Inr ([], visited))"
| "map_st f (x # xs) visited =
     (case f x visited of
        None \<Rightarrow> None
      | Some (Inl e) \<Rightarrow> Some (Inl e)
      | Some (Inr (r, visited')) \<Rightarrow>
          (case map_st f xs visited' of
             None \<Rightarrow> None
           | Some (Inl e) \<Rightarrow> Some (Inl e)
           | Some (Inr (rs, visited'')) \<Rightarrow> Some (Inr (r # rs, visited''))))"

fun resolveSchema1_st :: "nat \<Rightarrow> json \<Rightarrow> json \<Rightarrow> string list \<Rightarrow> (error + json \<times> string list) option" where
  "resolveSchema1_st 0 doc schema visited = None"
| "resolveSchema1_st (Suc depth) doc schema visited =
     (if \<not> truthy schema then Some (Inr (string_schema, visited))
      else if truthy (field schema ''$ref'') then
        (case field schema ''$ref'' of
           JStr ref \<Rightarrow>
             if ref \<in> set visited then Some (Inr (placeholder_schema ref, visited))
             else (case resolveRef1 doc ref of
                     Inl e \<Rightarrow> Some (Inl e)
                   | Inr resolved \<Rightarrow>
                       (case resolveSchema1_st depth doc (fragment_of resolved) (ref # visited) of
                          None \<Rightarrow> None
                        | Some (Inl e) \<Rightarrow> Some (Inl e)
                        | Some (Inr (result, visited')) \<Rightarrow>
                            Some (Inr (result, removeAll ref visited'))))
         | _ \<Rightarrow> Some (Inl TypeError))
      else if truthy (field schema ''allOf'') then
        (case field schema ''allOf'' of
           JArr xs \<Rightarrow>
             (case map_st (\<lambda>s v. resolveSchema1_st depth doc s v) xs visited of
                None \<Rightarrow> None
              | Some (Inl e) \<Rightarrow> Some (Inl e)
              | Some (Inr (rs, visited')) \<Rightarrow>
                  (case mergeSchemas rs of
                     Inl e \<Rightarrow> Some (Inl e)
                   | Inr merged \<Rightarrow> Some (Inr (merged, visited'))))
         | _ \<Rightarrow> Some (Inl TypeError))
      else if truthy (field schema ''oneOf'') \<or> truthy (field schema ''anyOf'') then
        resolveSchema1_st depth doc
          (first_of (if truthy (field schema ''oneOf'') then field schema ''oneOf''
                     else field schema ''anyOf''))
          visited
      else
        (case schema of
           JObj ps \<Rightarrow>
             (case (if truthy (field schema ''properties'')
                    then (case map_st
                                 (\<lambda>(key, val) v.
                                    case resolveSchema1_st depth doc val v of
                                      None \<Rightarrow> None
                                    | Some (Inl e) \<Rightarrow> Some (Inl e)
                                    | Some (Inr (r, v')) \<Rightarrow> Some (Inr ((key, r), v')))
                                 (spread (field schema ''properties'')) visited of
                            None \<Rightarrow> None
                          | Some (Inl e) \<Rightarrow> Some (Inl e)
                          | Some (Inr (es, visited')) \<Rightarrow>
                              Some (Inr (obj_set ps ''properties'' (JObj es), visited')))
                    else Some (Inr (ps, visited))) of
                None \<Rightarrow> None
              | Some (Inl e) \<Rightarrow> Some (Inl e)
              | Some (Inr (ps', visited')) \<Rightarrow>
                  if truthy (field schema ''items'')
                  then (case resolveSchema1_st depth doc (field schema ''items'') visited' of
                          None \<Rightarrow> None
                        | Some (Inl e) \<Rightarrow> Some (Inl e)
                        | Some (Inr (r, visited'')) \<Rightarrow>
                            Some (Inr (JObj (obj_set ps' ''items'' r), visited'')))
                  else Some (Inr (JObj ps', visited')))
         | _ \<Rightarrow> Some (Inr (JObj (spread schema), visited))))"

text \<open>What a call returns when it returns the set it was given.\<close>

definition returning :: "error + 'a \<Rightarrow> string list \<Rightarrow> error + 'a \<times> string list" where
  "returning r visited = (case r of Inl e \<Rightarrow> Inl e | Inr x \<Rightarrow> Inr (x, visited))"

section \<open>Tool compiler\<close>

record tool =
  tool_name :: string
  tool_description :: string
  tool_inputSchema :: json

text \<open>\<^verbatim>\<open>xs.join(sep)\<close> on the elements of an array.\<close>

definition array_join :: "json list \<Rightarrow> string \<Rightarrow> error + string" where
  "array_join xs sep =
     (case sequence_sum (map (\<lambda>x. if nullish x then Inr [] else toStr x) xs) of
        Inl e \<Rightarrow> Inl e
      | Inr ss \<Rightarrow> Inr (join ss sep))"

text \<open>\<^verbatim>\<open>a !== b\<close> for the values of two different properties: two objects are never the same.\<close>

definition strict_ne :: "json \<Rightarrow> json \<Rightarrow> bool" where
  "strict_ne a b = (\<not> primitive a \<or> a \<noteq> b)"

text \<open>The bracketed tag list of \<^verbatim>\<open>buildDescription\<close>: no part, or one.\<close>

definition tags_part :: "json \<Rightarrow> error + string list" where
  "tags_part tags =
     (if \<not> truthy tags then Inr []
      else case tags of
             JArr xs \<Rightarrow>
               if length xs > 0
               then (case array_join xs '', '' of
                       Inl e \<Rightarrow> Inl e
                     | Inr s \<Rightarrow> Inr [''['' @ s @ '']''])
               else Inr []
           | JStr s \<Rightarrow> Inl TypeError
           | JObj ps \<Rightarrow> if map_of ps ''length'' = None then Inr [] else Inl OutsideModel
           | _ \<Rightarrow> Inr [])"

text \<open>\<^verbatim>\<open>buildDescription\<close> (the same in both parsers).\<close>

definition buildDescription :: "json \<Rightarrow> string \<Rightarrow> string \<Rightarrow> error + string" where
  "buildDescription operation method pathTemplate =
     (case (if truthy (field operation ''summary'') then toStr (field operation ''summary'')
            else if truthy (field operation ''description'')
            then (case field operation ''description'' of
                    JStr d \<Rightarrow> Inr (takeWhile (\<lambda>c. c \<noteq> CHR 0x0A) d)
                  | _ \<Rightarrow> Inl TypeError)
            else Inr (toUpperCase method @ '' '' @ pathTemplate)) of
        Inl e \<Rightarrow> Inl e
      | Inr head \<Rightarrow>
          (case tags_part (field operation ''tags'') of
             Inl e \<Rightarrow> Inl e
           | Inr tagParts \<Rightarrow>
               (case (if truthy (field operation ''description'') \<and> truthy (field operation ''summary'')
                         \<and> strict_ne (field operation ''description'') (field operation ''summary'')
                      then (case toStr (field operation ''description'') of
                              Inl e \<Rightarrow> Inl e
                            | Inr d \<Rightarrow> Inr [[CHR 0x0A, CHR 0x0A] @ d])
                      else Inr []) of
                  Inl e \<Rightarrow> Inl e
                | Inr rest \<Rightarrow> Inr (join ([head] @ tagParts @ rest) '' ''))))"

text \<open>
  \<^verbatim>\<open>properties[name] = value\<close>: the name is converted to a property key. The key
  \<^verbatim>\<open>__proto__\<close> reaches the setter that \<^verbatim>\<open>properties\<close> inherits: the value becomes the
  prototype of \<^verbatim>\<open>properties\<close>, and no property is made. (The prototype is not read again, and
  it is no part of the schema as it is listed or serialized.)
\<close>

definition set_property :: "(string \<times> json) list \<Rightarrow> json \<Rightarrow> json \<Rightarrow> error + (string \<times> json) list" where
  "set_property properties name v =
     (case toStr name of
        Inl e \<Rightarrow> Inl e
      | Inr key \<Rightarrow> if key = ''__proto__'' then Inr properties else Inr (obj_set properties key v))"

text \<open>\<^verbatim>\<open>{...schema, description: d}\<close>.\<close>

definition with_description :: "json \<Rightarrow> json \<Rightarrow> json" where
  "with_description schema d = JObj (obj_set (spread schema) ''description'' d)"

definition input_schema :: "(string \<times> json) list \<Rightarrow> json list \<Rightarrow> json" where
  "input_schema properties required =
     JObj [(''type'', JStr ''object''), (''properties'', JObj properties),
           (''required'', if length required > 0 then JArr required else JUndefined),
           (''additionalProperties'', JBool False)]"

subsection \<open>First parser\<close>

definition isSwagger2 :: "json \<Rightarrow> bool" where
  "isSwagger2 schema = (opt_field schema ''swagger'' = JStr ''2.0'')"

text \<open>\<^verbatim>\<open>v?.startsWith('3.')\<close>: a value that is neither missing nor a string has no such method.\<close>

definition startsWith3 :: "json \<Rightarrow> error + bool" where
  "startsWith3 v =
     (case v of
        JUndefined \<Rightarrow> Inr False
      | JNull \<Rightarrow> Inr False
      | JStr s \<Rightarrow> Inr (startsWith s ''3.'')
      | _ \<Rightarrow> Inl TypeError)"

definition isOpenAPI3 :: "json \<Rightarrow> error + bool" where
  "isOpenAPI3 schema = startsWith3 (opt_field schema ''openapi'')"

text \<open>
  The schema the first parser builds for a Swagger 2.0 parameter without \<^verbatim>\<open>schema\<close>: the
  members that are \<^verbatim>\<open>undefined\<close> are deleted.
\<close>

definition legacy_schema :: "json \<Rightarrow> json" where
  "legacy_schema param =
     JObj (filter (\<lambda>kv. snd kv \<noteq> JUndefined)
       [(''type'', if truthy (field param ''type'') then field param ''type'' else JStr ''string''),
        (''format'', field param ''format''),
        (''enum'', field param ''enum''),
        (''items'', field param ''items''),
        (''minimum'', field param ''minimum''),
        (''maximum'', field param ''maximum''),
        (''minLength'', field param ''minLength''),
        (''maxLength'', field param ''maxLength''),
        (''pattern'', field param ''pattern'')])"

text \<open>The loop over the parameters; its state is \<^verbatim>\<open>properties\<close> and \<^verbatim>\<open>required\<close>.\<close>

fun params_loop1 :: "json \<Rightarrow> json list \<Rightarrow> (string \<times> json) list \<times> json list \<Rightarrow> error + (string \<times> json) list \<times> json list" where
  "params_loop1 doc [] acc = Inr acc"
| "params_loop1 doc (param # rest) (properties, required) =
     (if nullish param then Inl TypeError
      else if isSwagger2 doc \<and> field param ''in'' = JStr ''body''
      then params_loop1 doc rest (properties, required)
      else case (if isSwagger2 doc
                 then (if truthy (field param ''schema'')
                       then resolveSchema1 doc (field param ''schema'') []
                       else Inr (legacy_schema param))
                 else resolveSchema1 doc
                        (if truthy (field param ''schema'') then field param ''schema''
                         else string_schema) []) of
             Inl e \<Rightarrow> Inl e
           | Inr schema \<Rightarrow>
               (case set_property properties (field param ''name'')
                       (with_description schema (field param ''description'')) of
                  Inl e \<Rightarrow> Inl e
                | Inr properties' \<Rightarrow>
                    params_loop1 doc rest
                      (properties',
                       if truthy (field param ''required'') then required @ [field param ''name'']
                       else required)))"

text \<open>\<^verbatim>\<open>parameters.find(p => p.in === 'body')\<close>.\<close>

fun find_body :: "json list \<Rightarrow> error + json option" where
  "find_body [] = Inr None"
| "find_body (p # ps) =
     (if nullish p then Inl TypeError
      else if field p ''in'' = JStr ''body'' then Inr (Some p)
      else find_body ps)"

definition requestBodySchema :: "json \<Rightarrow> json" where
  "requestBodySchema operation =
     opt_field (opt_field (opt_field (field operation ''requestBody'') ''content'') ''application/json'') ''schema''"

definition body_part1 :: "json \<Rightarrow> json \<Rightarrow> (string \<times> json) list \<times> json list \<Rightarrow> error + (string \<times> json) list \<times> json list" where
  "body_part1 doc operation acc =
     (case isOpenAPI3 doc of
        Inl e \<Rightarrow> Inl e
      | Inr is3 \<Rightarrow>
          if is3 \<and> truthy (requestBodySchema operation)
          then (case resolveSchema1 doc (requestBodySchema operation) [] of
                  Inl e \<Rightarrow> Inl e
                | Inr bodySchema \<Rightarrow>
                    Inr (obj_set (fst acc) ''body'' (with_description bodySchema (JStr ''Request body'')),
                         if truthy (field (field operation ''requestBody'') ''required'')
                         then snd acc @ [JStr ''body''] else snd acc))
          else if isSwagger2 doc \<and> truthy (field operation ''parameters'')
          then (case field operation ''parameters'' of
                  JArr ps \<Rightarrow>
                    (case find_body ps of
                       Inl e \<Rightarrow> Inl e
                     | Inr None \<Rightarrow> Inr acc
                     | Inr (Some bodyParam) \<Rightarrow>
                         (case resolveSchema1 doc
                                 (if truthy (field bodyParam ''schema'') then field bodyParam ''schema''
                                  else object_schema) [] of
                            Inl e \<Rightarrow> Inl e
                          | Inr bodySchema \<Rightarrow>
                              Inr (obj_set (fst acc) ''body''
                                     (with_description bodySchema
                                        (if truthy (field bodyParam ''description'')
                                         then field bodyParam ''description''
                                         else JStr ''Request body'')),
                                   if truthy (field bodyParam ''required'')
                                   then snd acc @ [JStr ''body''] else snd acc)))
                | _ \<Rightarrow> Inl TypeError)
          else Inr acc)"

definition buildInputSchema1 :: "json \<Rightarrow> json \<Rightarrow> error + json" where
  "buildInputSchema1 doc operation =
     (case (if truthy (field operation ''parameters'')
            then (case iterate (field operation ''parameters'') of
                    Inl e \<Rightarrow> Inl e
                  | Inr params \<Rightarrow> params_loop1 doc params ([], []))
            else Inr ([], [])) of
        Inl e \<Rightarrow> Inl e
      | Inr acc \<Rightarrow>
          (case body_part1 doc operation acc of
             Inl e \<Rightarrow> Inl e
           | Inr (properties, required) \<Rightarrow> Inr (input_schema properties required)))"

text \<open>
  \<^verbatim>\<open>operationToTool\<close>: whatever is thrown while the tool is built is caught, and the result
  is \<^verbatim>\<open>null\<close> (\<open>None\<close>). The operation identifier is a string here.
\<close>

definition caught :: "error + 'a \<Rightarrow> error + 'a option" where
  "caught r = (case r of Inl OutsideModel \<Rightarrow> Inl OutsideModel | Inl e \<Rightarrow> Inr None | Inr v \<Rightarrow> Inr (Some v))"

definition make_tool :: "string \<Rightarrow> error + json \<Rightarrow> error + string \<Rightarrow> error + tool" where
  "make_tool opId inputSchema descr =
     (case inputSchema of
        Inl e \<Rightarrow> Inl e
      | Inr s \<Rightarrow>
          (case descr of
             Inl e \<Rightarrow> Inl e
           | Inr d \<Rightarrow> Inr \<lparr>tool_name = opId, tool_description = d, tool_inputSchema = s\<rparr>))"

definition operationToTool1 :: "json \<Rightarrow> string \<Rightarrow> string \<Rightarrow> string \<Rightarrow> json \<Rightarrow> error + tool option" where
  "operationToTool1 doc opId pathTemplate method operation =
     caught (make_tool opId (buildInputSchema1 doc operation)
               (buildDescription operation method pathTemplate))"

text \<open>
  \<^verbatim>\<open>generateTools\<close>: the state of the two loops is the list of tools and the set of processed
  identifiers.
\<close>

fun methods_loop1 :: "json \<Rightarrow> string \<Rightarrow> (string \<times> json) list \<Rightarrow> tool list \<times> string list \<Rightarrow> error + tool list \<times> string list" where
  "methods_loop1 doc pathTemplate [] acc = Inr acc"
| "methods_loop1 doc pathTemplate ((method, operation) # rest) (tools, processedOperations) =
     (if \<not> isHttpMethod method then methods_loop1 doc pathTemplate rest (tools, processedOperations)
      else if \<not> isOperation1 operation then methods_loop1 doc pathTemplate rest (tools, processedOperations)
      else if \<not> truthy (field operation ''operationId'')
      then methods_loop1 doc pathTemplate rest (tools, processedOperations)
      else case field operation ''operationId'' of
             JStr opId \<Rightarrow>
               if opId \<in> set processedOperations
               then methods_loop1 doc pathTemplate rest (tools, processedOperations)
               else (case operationToTool1 doc opId pathTemplate method operation of
                       Inl e \<Rightarrow> Inl e
                     | Inr None \<Rightarrow> methods_loop1 doc pathTemplate rest (tools, processedOperations)
                     | Inr (Some t) \<Rightarrow>
                         methods_loop1 doc pathTemplate rest (tools @ [t], opId # processedOperations))
           | _ \<Rightarrow> Inl OutsideModel)"

fun paths_loop1 :: "json \<Rightarrow> (string \<times> json) list \<Rightarrow> tool list \<times> string list \<Rightarrow> error + tool list \<times> string list" where
  "paths_loop1 doc [] acc = Inr acc"
| "paths_loop1 doc ((pathTemplate, pathItem) # rest) acc =
     (case entries pathItem of
        Inl e \<Rightarrow> Inl e
      | Inr ms \<Rightarrow>
          (case methods_loop1 doc pathTemplate ms acc of
             Inl e \<Rightarrow> Inl e
           | Inr acc' \<Rightarrow> paths_loop1 doc rest acc'))"

definition generateTools1 :: "json \<Rightarrow> error + tool list" where
  "generateTools1 schema =
     (if \<not> truthy schema then Inl SchemaParseError
      else case entries (field schema ''paths'') of
             Inl e \<Rightarrow> Inl e
           | Inr ps \<Rightarrow>
               (case paths_loop1 schema ps ([], []) of
                  Inl e \<Rightarrow> Inl e
                | Inr (tools, processedOperations) \<Rightarrow> Inr tools))"

text \<open>The values \<^verbatim>\<open>String(v)\<close> converts without a TypeError.\<close>

fun convertible :: "json \<Rightarrow> bool" where
  "convertible (JObj ps) = (map_of ps ''toString'' = None)"
| "convertible (JArr xs) = list_all (\<lambda>x. nullish x \<or> convertible x) xs"
| "convertible v = True"

text \<open>
  \<^verbatim>\<open>validateSchema\<close> of the first parser. The message of the version error converts the
  version marker to a string.
\<close>

definition validateSchema1 :: "json \<Rightarrow> error + unit" where
  "validateSchema1 schema =
     (if \<not> truthy schema then Inl SchemaParseError
      else case startsWith3 (field schema ''openapi'') of
             Inl e \<Rightarrow> Inl e
           | Inr is3 \<Rightarrow>
               if \<not> is3 \<and> field schema ''swagger'' \<noteq> JStr ''2.0''
               then (if convertible (if truthy (field schema ''openapi'') then field schema ''openapi''
                                     else if truthy (field schema ''swagger'') then field schema ''swagger''
                                     else JStr ''unknown'')
                     then Inl SchemaParseError else Inl TypeError)
               else if \<not> truthy (field schema ''paths'') then Inl SchemaParseError
               else (case entries (field schema ''paths'') of
                       Inl e \<Rightarrow> Inl e
                     | Inr ps \<Rightarrow> if length ps = 0 then Inl SchemaParseError else Inr ()))"

text \<open>
  The parser object: the document (\<^verbatim>\<open>null\<close> until one is loaded), the tools, and the version
  flag of the second parser.
\<close>

record parser =
  parser_schema :: json
  parser_tools :: "tool list"
  parser_isOpenAPI3 :: bool

definition new_parser :: parser where
  "new_parser = \<lparr>parser_schema = JNull, parser_tools = [], parser_isOpenAPI3 = False\<rparr>"

text \<open>The log line of \<^verbatim>\<open>initialize\<close> reads \<^verbatim>\<open>schema.info.title\<close>.\<close>

definition read_info :: "json \<Rightarrow> error + unit" where
  "read_info schema = (if nullish (field schema ''info'') then Inl TypeError else Inr ())"

text \<open>
  \<^verbatim>\<open>initialize\<close> of the first parser, from the parsed content of the file on: every error is
  thrown again as a \<^verbatim>\<open>SchemaParseError\<close>. The result is the error, if any, and the parser
  as the call leaves it.
\<close>

definition rethrown :: "error \<Rightarrow> error" where
  "rethrown e = (case e of OutsideModel \<Rightarrow> OutsideModel | _ \<Rightarrow> SchemaParseError)"

definition initialize1 :: "parser \<Rightarrow> json \<Rightarrow> error option \<times> parser" where
  "initialize1 p content =
     (case validateSchema1 content of
        Inl e \<Rightarrow> (Some (rethrown e), p\<lparr>parser_schema := content\<rparr>)
      | Inr u \<Rightarrow>
          (case read_info content of
             Inl e \<Rightarrow> (Some (rethrown e), p\<lparr>parser_schema := content\<rparr>)
           | Inr u \<Rightarrow>
               (case generateTools1 content of
                  Inl e \<Rightarrow> (Some (rethrown e), p\<lparr>parser_schema := content\<rparr>)
                | Inr ts \<Rightarrow> (None, p\<lparr>parser_schema := content, parser_tools := ts\<rparr>))))"

definition getTools :: "parser \<Rightarrow> tool list" where
  "getTools p = parser_tools p"

subsection \<open>Second parser\<close>

definition convertSwaggerParamToSchema :: "json \<Rightarrow> json" where
  "convertSwaggerParamToSchema param =
     (let s0 = [];
          s1 = (if truthy (field param ''type'') then obj_set s0 ''type'' (field param ''type'') else s0);
          s2 = (if truthy (field param ''items'') then obj_set s1 ''items'' (field param ''items'') else s1);
          s3 = (if field param ''type'' = JStr ''integer'' then obj_set s2 ''type'' (JStr ''number'') else s2)
      in JObj s3)"

fun params_loopV3 :: "bool \<Rightarrow> nat \<Rightarrow> json \<Rightarrow> json list \<Rightarrow> (string \<times> json) list \<times> json list \<Rightarrow> error + (string \<times> json) list \<times> json list" where
  "params_loopV3 is3 stack doc [] acc = Inr acc"
| "params_loopV3 is3 stack doc (param # rest) (properties, required) =
     (if nullish param then Inl TypeError
      else case resolveSchema2 is3 stack doc
                  (if truthy (field param ''schema'') then field param ''schema'' else string_schema) of
             Inl e \<Rightarrow> Inl e
           | Inr schema \<Rightarrow>
               (case set_property properties (field param ''name'')
                       (with_description schema (field param ''description'')) of
                  Inl e \<Rightarrow> Inl e
                | Inr properties' \<Rightarrow>
                    params_loopV3 is3 stack doc rest
                      (properties',
                       if truthy (field param ''required'') then required @ [field param ''name'']
                       else required)))"

definition buildInputSchemaV3 :: "bool \<Rightarrow> nat \<Rightarrow> json \<Rightarrow> json \<Rightarrow> error + json" where
  "buildInputSchemaV3 is3 stack doc operation =
     (case (if truthy (field operation ''parameters'')
            then (case iterate (field operation ''parameters'') of
                    Inl e \<Rightarrow> Inl e
                  | Inr params \<Rightarrow> params_loopV3 is3 stack doc params ([], []))
            else Inr ([], [])) of
        Inl e \<Rightarrow> Inl e
      | Inr (properties, required) \<Rightarrow>
          if truthy (requestBodySchema operation)
          then (case resolveSchema2 is3 stack doc (requestBodySchema operation) of
                  Inl e \<Rightarrow> Inl e
                | Inr bodySchema \<Rightarrow>
                    Inr (input_schema
                           (obj_set properties ''body'' (with_description bodySchema (JStr ''Request body'')))
                           (if truthy (field (field operation ''requestBody'') ''required'')
                            then required @ [JStr ''body''] else required)))
          else Inr (input_schema properties required))"

fun params_loopV2 :: "bool \<Rightarrow> nat \<Rightarrow> json \<Rightarrow> json list \<Rightarrow> (string \<times> json) list \<times> json list \<Rightarrow> error + (string \<times> json) list \<times> json list" where
  "params_loopV2 is3 stack doc [] acc = Inr acc"
| "params_loopV2 is3 stack doc (param # rest) (properties, required) =
     (if nullish param then Inl TypeError
      else if field param ''in'' = JStr ''body''
      then (case resolveSchema2 is3 stack doc
                   (if truthy (field param ''schema'') then field param ''schema'' else object_schema) of
              Inl e \<Rightarrow> Inl e
            | Inr bodySchema \<Rightarrow>
                params_loopV2 is3 stack doc rest
                  (obj_set properties ''body''
                     (with_description bodySchema
                        (if truthy (field param ''description'') then field param ''description''
                         else JStr ''Request body'')),
                   if truthy (field param ''required'') then required @ [JStr ''body''] else required))
      else (case set_property properties (field param ''name'')
                   (with_description (convertSwaggerParamToSchema param) (field param ''description'')) of
              Inl e \<Rightarrow> Inl e
            | Inr properties' \<Rightarrow>
                params_loopV2 is3 stack doc rest
                  (properties',
                   if truthy (field param ''required'') then required @ [field param ''name'']
                   else required)))"

definition buildInputSchemaV2 :: "bool \<Rightarrow> nat \<Rightarrow> json \<Rightarrow> json \<Rightarrow> error + json" where
  "buildInputSchemaV2 is3 stack doc operation =
     (case (if truthy (field operation ''parameters'')
            then (case iterate (field operation ''parameters'') of
                    Inl e \<Rightarrow> Inl e
                  | Inr params \<Rightarrow> params_loopV2 is3 stack doc params ([], []))
            else Inr ([], [])) of
        Inl e \<Rightarrow> Inl e
      | Inr (properties, required) \<Rightarrow> Inr (input_schema properties required))"

definition operationToTool2 :: "bool \<Rightarrow> nat \<Rightarrow> json \<Rightarrow> string \<Rightarrow> string \<Rightarrow> string \<Rightarrow> json \<Rightarrow> error + tool option" where
  "operationToTool2 is3 stack doc opId pathTemplate method operation =
     caught (make_tool opId
               (if is3 then buildInputSchemaV3 is3 stack doc operation
                else buildInputSchemaV2 is3 stack doc operation)
               (buildDescription operation method pathTemplate))"

fun methods_loop2 :: "(char \<Rightarrow> string) \<Rightarrow> bool \<Rightarrow> nat \<Rightarrow> json \<Rightarrow> string \<Rightarrow> (string \<times> json) list \<Rightarrow> tool list \<times> string list \<Rightarrow> error + tool list \<times> string list" where
  "methods_loop2 upper is3 stack doc pathTemplate [] acc = Inr acc"
| "methods_loop2 upper is3 stack doc pathTemplate ((method, operation) # rest) (tools, processedOperations) =
     (if \<not> isHttpMethod method then methods_loop2 upper is3 stack doc pathTemplate rest (tools, processedOperations)
      else if \<not> isOperation2 operation
      then methods_loop2 upper is3 stack doc pathTemplate rest (tools, processedOperations)
      else case opId2 upper method pathTemplate operation of
             JStr opId \<Rightarrow>
               if opId \<in> set processedOperations
               then methods_loop2 upper is3 stack doc pathTemplate rest (tools, processedOperations)
               else (case operationToTool2 is3 stack doc opId pathTemplate method
                            (with_operationId operation (JStr opId)) of
                       Inl e \<Rightarrow> Inl e
                     | Inr None \<Rightarrow> methods_loop2 upper is3 stack doc pathTemplate rest (tools, processedOperations)
                     | Inr (Some t) \<Rightarrow>
                         methods_loop2 upper is3 stack doc pathTemplate rest
                           (tools @ [t], opId # processedOperations))
           | _ \<Rightarrow> Inl OutsideModel)"

fun paths_loop2 :: "(char \<Rightarrow> string) \<Rightarrow> bool \<Rightarrow> nat \<Rightarrow> json \<Rightarrow> (string \<times> json) list \<Rightarrow> tool list \<times> string list \<Rightarrow> error + tool list \<times> string list" where
  "paths_loop2 upper is3 stack doc [] acc = Inr acc"
| "paths_loop2 upper is3 stack doc ((pathTemplate, pathItem) # rest) acc =
     (case entries pathItem of
        Inl e \<Rightarrow> Inl e
      | Inr ms \<Rightarrow>
          (case methods_loop2 upper is3 stack doc pathTemplate ms acc of
             Inl e \<Rightarrow> Inl e
           | Inr acc' \<Rightarrow> paths_loop2 upper is3 stack doc rest acc'))"

definition generateTools2 :: "(char \<Rightarrow> string) \<Rightarrow> bool \<Rightarrow> nat \<Rightarrow> json \<Rightarrow> error + tool list" where
  "generateTools2 upper is3 stack schema =
     (if \<not> truthy schema then Inl SchemaParseError
      else case entries (field schema ''paths'') of
             Inl e \<Rightarrow> Inl e
           | Inr ps \<Rightarrow>
               (case paths_loop2 upper is3 stack schema ps ([], []) of
                  Inl e \<Rightarrow> Inl e
                | Inr (tools, processedOperations) \<Rightarrow> Inr tools))"

text \<open>
  \<^verbatim>\<open>detectVersion\<close>: the new value of the version flag. The operator \<^verbatim>\<open>in\<close> needs an
  object; an array has neither member.
\<close>

definition detectVersion :: "bool \<Rightarrow> json \<Rightarrow> error + bool" where
  "detectVersion flag schema =
     (if \<not> truthy schema then Inr flag
      else case schema of
             JObj ps \<Rightarrow>
               if map_of ps ''openapi'' \<noteq> None
               then (case field schema ''openapi'' of
                       JStr s \<Rightarrow>
                         if startsWith s ''3.'' then Inr True
                         else if map_of ps ''swagger'' \<noteq> None \<and> field schema ''swagger'' = JStr ''2.0''
                         then Inr False
                         else Inl SchemaParseError
                     | _ \<Rightarrow> Inl TypeError)
               else if map_of ps ''swagger'' \<noteq> None \<and> field schema ''swagger'' = JStr ''2.0''
               then Inr False
               else Inl SchemaParseError
           | JArr xs \<Rightarrow> Inl SchemaParseError
           | _ \<Rightarrow> Inl TypeError)"

definition validateSchema2 :: "json \<Rightarrow> error + unit" where
  "validateSchema2 schema =
     (if \<not> truthy schema then Inl SchemaParseError
      else if \<not> truthy (field schema ''paths'') then Inl SchemaParseError
      else (case entries (field schema ''paths'') of
              Inl e \<Rightarrow> Inl e
            | Inr ps \<Rightarrow> if length ps = 0 then Inl SchemaParseError else Inr ()))"

text \<open>
  \<^verbatim>\<open>initialize\<close> of the second parser; \<open>stack\<close> is the depth of nested calls the engine
  allows the resolver.
\<close>

definition initialize2 :: "(char \<Rightarrow> string) \<Rightarrow> nat \<Rightarrow> parser \<Rightarrow> json \<Rightarrow> error option \<times> parser" where
  "initialize2 upper stack p content =
     (case detectVersion (parser_isOpenAPI3 p) content of
        Inl e \<Rightarrow> (Some (rethrown e), p\<lparr>parser_schema := content\<rparr>)
      | Inr is3 \<Rightarrow>
          (case validateSchema2 content of
             Inl e \<Rightarrow> (Some (rethrown e), p\<lparr>parser_schema := content, parser_isOpenAPI3 := is3\<rparr>)
           | Inr u \<Rightarrow>
               (case read_info content of
                  Inl e \<Rightarrow> (Some (rethrown e), p\<lparr>parser_schema := content, parser_isOpenAPI3 := is3\<rparr>)
                | Inr u \<Rightarrow>
                    (case generateTools2 upper is3 stack content of
                       Inl e \<Rightarrow>
                         (Some (rethrown e), p\<lparr>parser_schema := content, parser_isOpenAPI3 := is3\<rparr>)
                     | Inr ts \<Rightarrow>
                         (None, p\<lparr>parser_schema := content, parser_isOpenAPI3 := is3,
                                  parser_tools := ts\<rparr>)))))"

section \<open>The merge of \<^verbatim>\<open>allOf\<close> branches, in the words of the specification\<close>






section \<open>References, names and validation, in the words of the specification\<close>

text \<open>
  The value a document holds under a list of segments: each segment is a member of the object,
  or an index of the array, reached so far.
\<close>

fun own :: "json \<Rightarrow> string \<Rightarrow> json option" where
  "own (JObj ps) k = map_of ps k"
| "own (JArr xs) k = map_of (indexed xs) k"
| "own v k = None"

fun pointer :: "json \<Rightarrow> string list \<Rightarrow> json option" where
  "pointer c [] = Some c"
| "pointer c (part # parts) = (case own c part of None \<Rightarrow> None | Some v \<Rightarrow> pointer v parts)"

text \<open>
  The same, when a segment also counts as absent where the value under it is \<^verbatim>\<open>null\<close>,
  \<^verbatim>\<open>false\<close>, zero or the empty string.
\<close>

fun present_at :: "json \<Rightarrow> string list \<Rightarrow> json option" where
  "present_at c [] = Some c"
| "present_at c (part # parts) =
     (case own c part of
        None \<Rightarrow> None
      | Some v \<Rightarrow> if truthy v then present_at v parts else None)"

text \<open>
  A walk that reads members of objects and elements of arrays only: no segment names, at the
  value it is read from, a member that the value inherits or that is built in (the length and
  the methods of an array, the members of a string, a number or a boolean).
\<close>

fun plain_walk :: "json \<Rightarrow> string list \<Rightarrow> bool" where
  "plain_walk c [] = True"
| "plain_walk c (part # parts) =
     (case c of
        JObj ps \<Rightarrow>
          (case map_of ps part of
             Some v \<Rightarrow> truthy v \<longrightarrow> plain_walk v parts
           | None \<Rightarrow> part \<notin> set protoMembers)
      | JArr xs \<Rightarrow>
          (case map_of (indexed xs) part of
             Some v \<Rightarrow> truthy v \<longrightarrow> plain_walk v parts
           | None \<Rightarrow> isArrayIndex part)
      | JUndefined \<Rightarrow> True
      | JNull \<Rightarrow> True
      | _ \<Rightarrow> False)"

text \<open>
  Where the walk of the second parser starts and which segments it walks: a Swagger 2.0
  reference that begins with \<^verbatim>\<open>definitions\<close> is rebased onto the definitions of the document,
  an OpenAPI 3.x reference that begins with \<^verbatim>\<open>components\<close> onto its components.
\<close>

definition rebased :: "bool \<Rightarrow> json \<Rightarrow> string list \<Rightarrow> json \<times> string list" where
  "rebased is3 doc segs =
     (case segs of
        [] \<Rightarrow> (doc, [])
      | seg # rest \<Rightarrow>
          if \<not> is3 \<and> seg = ''definitions'' then (field doc ''definitions'', rest)
          else if is3 \<and> seg = ''components'' then (field doc ''components'', rest)
          else (doc, segs))"

text \<open>The segments of a reference behind the leading fragment marker.\<close>

definition segments :: "string \<Rightarrow> string list" where
  "segments ref = tl (split ref CHR ''/'')"

text \<open>
  The synthesized name: the segments of the path without the empty ones and the path
  parameters, each with a capital first letter, behind the method in lower case.
\<close>

definition synthesized_name :: "(char \<Rightarrow> string) \<Rightarrow> string \<Rightarrow> string \<Rightarrow> string" where
  "synthesized_name upper method path =
     toLowerCase method
     @ concat (map (capitalize upper)
         (filter (\<lambda>seg. seg \<noteq> [] \<and> \<not> startsWith seg ''{'') (split path CHR ''/'')))"

text \<open>The version marker and the paths a document must have.\<close>

definition version_marker_ok :: "json \<Rightarrow> bool" where
  "version_marker_ok doc =
     ((case field doc ''openapi'' of JStr s \<Rightarrow> startsWith s ''3.'' | _ \<Rightarrow> False)
      \<or> field doc ''swagger'' = JStr ''2.0'')"

text \<open>The paths are there and have at least one key of their own.\<close>

definition paths_nonempty :: "json \<Rightarrow> bool" where
  "paths_nonempty doc =
     (truthy (field doc ''paths'') \<and> entries (field doc ''paths'') \<noteq> Inr [])"

section \<open>Duplicate operation identifiers, in the words of the specification\<close>

text \<open>The operations of a document, in the order the compiler visits them: path by path, method by method.\<close>

definition item_operations :: "string \<Rightarrow> json \<Rightarrow> (string \<times> string \<times> json) list" where
  "item_operations pathTemplate pathItem =
     (case entries pathItem of
        Inl e \<Rightarrow> []
      | Inr ms \<Rightarrow> map (\<lambda>(method, operation). (pathTemplate, method, operation)) ms)"

definition all_operations :: "json \<Rightarrow> (string \<times> string \<times> json) list" where
  "all_operations doc =
     (case entries (field doc ''paths'') of
        Inl e \<Rightarrow> []
      | Inr ps \<Rightarrow> concat (map (\<lambda>(pathTemplate, pathItem). item_operations pathTemplate pathItem) ps))"

definition tool_of :: "error + tool option \<Rightarrow> tool list" where
  "tool_of r = (case r of Inr (Some t) \<Rightarrow> [t] | _ \<Rightarrow> [])"

text \<open>
  An operation is an occurrence of a name when it is compiled under that name: its key is an
  HTTP method, it is recognized as an operation, the name is its identifier (for the second
  parser also the generated one), and the compilation gives a tool.
\<close>

definition compiles1 :: "json \<Rightarrow> string \<Rightarrow> string \<times> string \<times> json \<Rightarrow> bool" where
  "compiles1 doc n = (\<lambda>(pathTemplate, method, operation).
     isHttpMethod method \<and> isOperation1 operation \<and> n \<noteq> []
     \<and> field operation ''operationId'' = JStr n
     \<and> tool_of (operationToTool1 doc n pathTemplate method operation) \<noteq> [])"

definition compiles2 :: "(char \<Rightarrow> string) \<Rightarrow> bool \<Rightarrow> nat \<Rightarrow> json \<Rightarrow> string \<Rightarrow> string \<times> string \<times> json \<Rightarrow> bool" where
  "compiles2 upper is3 stack doc n = (\<lambda>(pathTemplate, method, operation).
     isHttpMethod method \<and> isOperation2 operation
     \<and> opId2 upper method pathTemplate operation = JStr n
     \<and> tool_of (operationToTool2 is3 stack doc n pathTemplate method
                   (with_operationId operation (JStr n))) \<noteq> [])"

text \<open>The tool of the first occurrence of a name in a list of operations: one tool, or none.\<close>

definition first_wins1 :: "json \<Rightarrow> string \<Rightarrow> (string \<times> string \<times> json) list \<Rightarrow> tool list" where
  "first_wins1 doc n ops =
     (case find (compiles1 doc n) ops of
        None \<Rightarrow> []
      | Some (pathTemplate, method, operation) \<Rightarrow>
          tool_of (operationToTool1 doc n pathTemplate method operation))"

definition first_wins2 :: "(char \<Rightarrow> string) \<Rightarrow> bool \<Rightarrow> nat \<Rightarrow> json \<Rightarrow> string \<Rightarrow> (string \<times> string \<times> json) list \<Rightarrow> tool list" where
  "first_wins2 upper is3 stack doc n ops =
     (case find (compiles2 upper is3 stack doc n) ops of
        None \<Rightarrow> []
      | Some (pathTemplate, method, operation) \<Rightarrow>
          tool_of (operationToTool2 is3 stack doc n pathTemplate method
                     (with_operationId operation (JStr n))))"

section \<open>Dispatch, in the words of the specification\<close>

text \<open>
  An operation carries a name when the parser's index finds it under that name: it is
  recognized as an operation and the name is its identifier (for the second parser also the
  generated one).
\<close>

definition carries1 :: "string \<Rightarrow> string \<times> string \<times> json \<Rightarrow> bool" where
  "carries1 n = (\<lambda>(pathTemplate, method, operation).
     isOperation1 operation \<and> field operation ''operationId'' = JStr n)"

definition carries2 :: "(char \<Rightarrow> string) \<Rightarrow> string \<Rightarrow> string \<times> string \<times> json \<Rightarrow> bool" where
  "carries2 upper n = (\<lambda>(pathTemplate, method, operation).
     isOperation2 operation \<and> opId2 upper method pathTemplate operation = JStr n)"

text \<open>The methods the dispatcher sends.\<close>

definition supported :: "string \<Rightarrow> bool" where
  "supported method =
     (toLowerCase method \<in> set [''get'', ''post'', ''put'', ''patch'', ''delete''])"

text \<open>
  A placeholder name the dispatcher can deal with: the arguments hold a value of that name that
  converts to a string, or they hold none and inherit none whose call throws.
\<close>

definition fillable :: "(string \<times> json) list \<Rightarrow> string \<Rightarrow> bool" where
  "fillable ps name =
     (case map_of ps name of
        Some v \<Rightarrow> (case toStr v of Inr r \<Rightarrow> True | Inl e \<Rightarrow> False)
      | None \<Rightarrow>
          name \<in> set protoMembers \<longrightarrow>
            name = ''__proto__'' \<or> (case callReplacer name [] of Inr r \<Rightarrow> True | Inl e \<Rightarrow> False))"

section \<open>Example documents\<close>

text \<open>
  The capitals of the letters a to z: the part of the engine's table that the examples use.
\<close>

definition upper_ascii :: "char \<Rightarrow> string" where
  "upper_ascii c = [toUpperChar c]"

text \<open>One GET operation on \<^verbatim>\<open>/x/{id}\<close>.\<close>

definition doc_x :: json where
  "doc_x =
     JObj [(''openapi'', JStr ''3.0.0''),
           (''info'', JObj [(''title'', JStr ''x''), (''version'', JStr ''1'')]),
           (''paths'', JObj [(''/x/{id}'', JObj [(''get'', JObj [(''operationId'', JStr ''getX'')])])])]"



text \<open>A Swagger 2.0 document with one definition.\<close>

definition doc_defs :: json where
  "doc_defs =
     JObj [(''swagger'', JStr ''2.0''),
           (''info'', JObj [(''title'', JStr ''x''), (''version'', JStr ''1'')]),
           (''paths'', JObj [(''/x'', JObj [(''get'', JObj [(''operationId'', JStr ''getX'')])])]),
           (''definitions'', JObj [(''A'', JObj [(''type'', JStr ''integer'')])])]"

text \<open>An operation without identifier.\<close>

definition doc_noid :: json where
  "doc_noid =
     JObj [(''swagger'', JStr ''2.0''),
           (''info'', JObj [(''title'', JStr ''x''), (''version'', JStr ''1'')]),
           (''paths'', JObj [(''/workflows/{ns}/{name}'', JObj [(''get'', JObj [(''summary'', JStr ''Get a workflow'')])])])]"

text \<open>A document whose paths are a string.\<close>

definition doc_string_paths :: json where
  "doc_string_paths =
     JObj [(''openapi'', JStr ''3.0.0''),
           (''info'', JObj [(''title'', JStr ''x''), (''version'', JStr ''1'')]),
           (''paths'', JStr ''abc'')]"

text \<open>A document without paths.\<close>

definition doc_no_paths :: json where
  "doc_no_paths =
     JObj [(''openapi'', JStr ''3.0.0''),
           (''info'', JObj [(''title'', JStr ''x''), (''version'', JStr ''1'')]),
           (''paths'', JObj [])]"

text \<open>
  A Swagger 2.0 document with a definition that refers to itself, used as the body of an
  operation.
\<close>

definition schema_A :: json where
  "schema_A =
     JObj [(''type'', JStr ''object''),
           (''properties'', JObj [(''next'', JObj [(''$ref'', JStr ''#/definitions/A'')])])]"

definition doc_cyclic :: json where
  "doc_cyclic =
     JObj [(''swagger'', JStr ''2.0''),
           (''info'', JObj [(''title'', JStr ''x''), (''version'', JStr ''1'')]),
           (''paths'', JObj [(''/a'', JObj [(''post'', JObj
              [(''operationId'', JStr ''postA''),
               (''parameters'', JArr [JObj [(''name'', JStr ''a''), (''in'', JStr ''body''),
                                            (''schema'', JObj [(''$ref'', JStr ''#/definitions/A'')])]])])])]),
           (''definitions'', JObj [(''A'', schema_A)])]"



text \<open>
  A Swagger 2.0 document with two operations named \<^verbatim>\<open>foo\<close>. The body of the first refers to a
  definition the document does not have.
\<close>

definition op_foo_first :: json where
  "op_foo_first =
     JObj [(''operationId'', JStr ''foo''),
           (''summary'', JStr ''first''),
           (''parameters'', JArr [JObj [(''name'', JStr ''payload''), (''in'', JStr ''body''),
                                        (''schema'', JObj [(''$ref'', JStr ''#/definitions/Missing'')])]])]"

definition op_foo_second :: json where
  "op_foo_second = JObj [(''operationId'', JStr ''foo''), (''summary'', JStr ''second'')]"

definition doc_dup :: json where
  "doc_dup =
     JObj [(''swagger'', JStr ''2.0''),
           (''info'', JObj [(''title'', JStr ''x''), (''version'', JStr ''1'')]),
           (''paths'', JObj [(''/a'', JObj [(''get'', op_foo_first)]),
                             (''/b'', JObj [(''get'', op_foo_second)])])]"

text \<open>The tools of the two operations \<^verbatim>\<open>foo\<close>.\<close>

definition the_first :: tool where
  "the_first =
     \<lparr>tool_name = ''foo'', tool_description = ''first'',
      tool_inputSchema =
        JObj [(''type'', JStr ''object''),
              (''properties'', JObj [(''body'', JObj [(''type'', JStr ''object''),
                                                      (''description'', JStr ''Request body'')])]),
              (''required'', JUndefined),
              (''additionalProperties'', JBool False)]\<rparr>"

definition the_second :: tool where
  "the_second =
     \<lparr>tool_name = ''foo'', tool_description = ''second'',
      tool_inputSchema =
        JObj [(''type'', JStr ''object''), (''properties'', JObj []),
              (''required'', JUndefined),
              (''additionalProperties'', JBool False)]\<rparr>"




text \<open>
  Documents for the dispatcher: a POST operation, a path whose placeholder has the name of an
  inherited member, a HEAD operation, and two operations \<^verbatim>\<open>foo\<close> of which the first does not
  compile and the second has the path \<^verbatim>\<open>/x/{id}\<close>.
\<close>

definition doc_post :: json where
  "doc_post =
     JObj [(''openapi'', JStr ''3.0.0''),
           (''info'', JObj [(''title'', JStr ''x''), (''version'', JStr ''1'')]),
           (''paths'', JObj [(''/x/{id}'', JObj [(''post'', JObj [(''operationId'', JStr ''postX'')])])])]"



definition doc_dup_get :: json where
  "doc_dup_get =
     JObj [(''swagger'', JStr ''2.0''),
           (''info'', JObj [(''title'', JStr ''x''), (''version'', JStr ''1'')]),
           (''paths'', JObj [(''/a'', JObj [(''get'', op_foo_first)]),
                             (''/x/{id}'', JObj [(''get'', op_foo_second)])])]"

text \<open>The tool of the operation \<^verbatim>\<open>getX\<close> of the first example.\<close>

definition the_getX :: tool where
  "the_getX =
     \<lparr>tool_name = ''getX'', tool_description = ''GET /x/{id}'',
      tool_inputSchema =
        JObj [(''type'', JStr ''object''), (''properties'', JObj []),
              (''required'', JUndefined),
              (''additionalProperties'', JBool False)]\<rparr>"

section \<open>Objects and tools: basic facts\<close>

lemma map_of_obj_set: "map_of (obj_set ps k v) = (map_of ps)(k \<mapsto> v)"
  by (induction ps k v rule: obj_set.induct) (auto simp: fun_eq_iff)

lemma make_tool_name: "make_tool opId a b = Inr t \<Longrightarrow> tool_name t = opId"
  by (auto simp: make_tool_def split: sum.splits)

lemma caught_Some: "caught r = Inr (Some v) \<Longrightarrow> r = Inr v"
  by (auto simp: caught_def split: sum.splits error.splits)

lemma operationToTool2_name:
  "operationToTool2 is3 stack doc opId pt m op = Inr (Some t) \<Longrightarrow> tool_name t = opId"
  unfolding operationToTool2_def by (drule caught_Some) (rule make_tool_name)

lemma operationToTool1_name:
  "operationToTool1 doc opId pt m op = Inr (Some t) \<Longrightarrow> tool_name t = opId"
  unfolding operationToTool1_def by (drule caught_Some) (rule make_tool_name)

section \<open>Schema merge: properties\<close>














section \<open>Reference walk and operation names: properties\<close>

lemma walk2_plain:
  "plain_walk c parts \<Longrightarrow>
   walk2 c parts = (case present_at c parts of Some v \<Rightarrow> Inr (Value v) | None \<Rightarrow> Inl SchemaParseError)"
proof (induction parts arbitrary: c)
  case Nil
  then show ?case by simp
next
  case (Cons part parts)
  show ?case
  proof (cases c)
    case (JObj ps)
    show ?thesis
    proof (cases "map_of ps part")
      case None
      with JObj Cons.prems show ?thesis by simp
    next
      case (Some v)
      show ?thesis
      proof (cases "truthy v")
        case True
        with JObj Some Cons.prems have "plain_walk v parts" by simp
        from Cons.IH [OF this] JObj Some True show ?thesis by simp
      next
        case False
        with JObj Some show ?thesis by simp
      qed
    qed
  next
    case (JArr xs)
    show ?thesis
    proof (cases "map_of (indexed xs) part")
      case None
      with JArr Cons.prems show ?thesis by simp
    next
      case (Some v)
      show ?thesis
      proof (cases "truthy v")
        case True
        with JArr Some Cons.prems have "plain_walk v parts" by simp
        from Cons.IH [OF this] JArr Some True show ?thesis by simp
      next
        case False
        with JArr Some show ?thesis by simp
      qed
    qed
  qed (use Cons.prems in simp_all)
qed

lemma walk1_plain:
  "plain_walk c parts \<Longrightarrow> \<not> nullish c \<Longrightarrow>
   walk1 c parts = (case present_at c parts of Some v \<Rightarrow> Inr (Value v) | None \<Rightarrow> Inr (Value object_schema))"
proof (induction parts arbitrary: c)
  case Nil
  then show ?case by simp
next
  case (Cons part parts)
  have tn: "\<And>v. truthy v \<Longrightarrow> \<not> nullish v" by (case_tac v) auto
  show ?case
  proof (cases c)
    case (JObj ps)
    show ?thesis
    proof (cases "map_of ps part")
      case None
      with JObj Cons.prems show ?thesis by simp
    next
      case (Some v)
      show ?thesis
      proof (cases "truthy v")
        case True
        with JObj Some Cons.prems have "plain_walk v parts" by simp
        from Cons.IH [OF this tn [OF True]] JObj Some True show ?thesis by simp
      next
        case False
        with JObj Some show ?thesis by simp
      qed
    qed
  next
    case (JArr xs)
    show ?thesis
    proof (cases "map_of (indexed xs) part")
      case None
      with JArr Cons.prems show ?thesis by simp
    next
      case (Some v)
      show ?thesis
      proof (cases "truthy v")
        case True
        with JArr Some Cons.prems have "plain_walk v parts" by simp
        from Cons.IH [OF this tn [OF True]] JArr Some True show ?thesis by simp
      next
        case False
        with JArr Some show ?thesis by simp
      qed
    qed
  qed (use Cons.prems in simp_all)
qed

lemma present_pointer: "present_at c parts = Some v \<Longrightarrow> pointer c parts = Some v"
  by (induction parts arbitrary: c) (auto split: option.splits if_splits)

lemma resolveRef2_rebased:
  assumes "truthy doc" "rebased is3 doc (segments ref) = (c, parts)"
  shows "resolveRef2 is3 doc ref = walk2 c parts"
proof (cases "segments ref")
  case Nil
  with assms show ?thesis
    by (simp add: resolveRef2_def rebased_def segments_def del: walk2.simps)
next
  case (Cons seg rest)
  with assms show ?thesis
    by (auto simp: resolveRef2_def rebased_def segments_def Let_def split: if_splits
             simp del: field.simps walk2.simps)
qed

text \<open>
  Claim C5, as the code has it. The second parser splits the reference behind the leading
  fragment marker, starts the walk at the definitions of a Swagger 2.0 document when the first
  segment is \<^verbatim>\<open>definitions\<close> and at the components of an OpenAPI 3.x document when it is
  \<^verbatim>\<open>components\<close>, and at the document otherwise, and walks the remaining segments one by
  one. When the walk reads members of objects and elements of arrays only, it returns the value
  the document holds there if every segment is present with a truthy value, and it fails with
  a \<^verbatim>\<open>SchemaParseError\<close> if a segment is absent or its value is falsy. The first parser walks
  from the document itself, and where a segment is absent or falsy it returns the substitute
  \<^verbatim>\<open>{type: "object"}\<close>.
\<close>

theorem resolveRef_walk:
  assumes doc: "truthy doc"
  shows
    "(segments ref = ''definitions'' # rest \<longrightarrow>
        rebased False doc (segments ref) = (field doc ''definitions'', rest))
     \<and> (segments ref = ''components'' # rest \<longrightarrow>
        rebased True doc (segments ref) = (field doc ''components'', rest))
     \<and> (rebased is3 doc (segments ref) = (c, parts) \<and> plain_walk c parts \<longrightarrow>
          resolveRef2 is3 doc ref =
            (case present_at c parts of Some v \<Rightarrow> Inr (Value v) | None \<Rightarrow> Inl SchemaParseError))
     \<and> (present_at c parts = Some v \<longrightarrow> pointer c parts = Some v)
     \<and> (plain_walk doc (segments ref) \<longrightarrow>
          resolveRef1 doc ref =
            (case present_at doc (segments ref) of
               Some v \<Rightarrow> Inr (Value v)
             | None \<Rightarrow> Inr (Value (JObj [(''type'', JStr ''object'')]))))"
proof (intro conjI impI)
  assume "segments ref = ''definitions'' # rest"
  then show "rebased False doc (segments ref) = (field doc ''definitions'', rest)"
    by (simp add: rebased_def del: field.simps)
next
  assume "segments ref = ''components'' # rest"
  then show "rebased True doc (segments ref) = (field doc ''components'', rest)"
    by (simp add: rebased_def del: field.simps)
next
  assume a: "rebased is3 doc (segments ref) = (c, parts) \<and> plain_walk c parts"
  then have "resolveRef2 is3 doc ref = walk2 c parts" using doc by (intro resolveRef2_rebased) simp_all
  with a walk2_plain [of c parts]
  show "resolveRef2 is3 doc ref =
          (case present_at c parts of Some v \<Rightarrow> Inr (Value v) | None \<Rightarrow> Inl SchemaParseError)"
    by simp
next
  assume "present_at c parts = Some v"
  then show "pointer c parts = Some v" by (rule present_pointer)
next
  assume a: "plain_walk doc (segments ref)"
  have nn: "\<not> nullish doc" using doc by (cases doc) auto
  have "resolveRef1 doc ref = walk1 doc (segments ref)"
    using doc by (simp add: resolveRef1_def segments_def)
  with walk1_plain [OF a nn]
  show "resolveRef1 doc ref =
          (case present_at doc (segments ref) of
             Some v \<Rightarrow> Inr (Value v)
           | None \<Rightarrow> Inr (Value (JObj [(''type'', JStr ''object'')])))"
    by (cases "present_at doc (segments ref)") (simp_all add: object_schema_def)
qed

theorem resolveRef_walk_witness:
  "truthy doc_defs
   \<and> segments ''#/definitions/A'' = [''definitions'', ''A'']
   \<and> rebased False doc_defs (segments ''#/definitions/A'') = (field doc_defs ''definitions'', [''A''])
   \<and> resolveRef2 False doc_defs ''#/definitions/A'' = Inr (Value (JObj [(''type'', JStr ''integer'')]))
   \<and> pointer (field doc_defs ''definitions'') [''A''] = Some (JObj [(''type'', JStr ''integer'')])
   \<and> resolveRef2 False doc_defs ''#/definitions/Missing'' = Inl SchemaParseError
   \<and> resolveRef2 False doc_defs ''#/info/title'' = Inr (Value (JStr ''x''))
   \<and> resolveRef1 doc_defs ''#/definitions/A'' = Inr (Value (JObj [(''type'', JStr ''integer'')]))"
proof -
  let ?A = "JObj [(''type'', JStr ''integer'')]"
  have doc: "truthy doc_defs" by (simp add: doc_defs_def)
  have seg: "segments ''#/definitions/A'' = [''definitions'', ''A'']" by code_simp
  have segm: "segments ''#/definitions/Missing'' = [''definitions'', ''Missing'']" by code_simp
  have segt: "rebased False doc_defs (segments ''#/info/title'') = (doc_defs, [''info'', ''title''])" by code_simp
  have pA: "plain_walk (field doc_defs ''definitions'') [''A'']" by code_simp
  have pM: "plain_walk (field doc_defs ''definitions'') [''Missing'']" by code_simp
  have pT: "plain_walk doc_defs [''info'', ''title'']" by code_simp
  have p1: "plain_walk doc_defs (segments ''#/definitions/A'')" by code_simp
  have hA: "present_at (field doc_defs ''definitions'') [''A''] = Some ?A" by code_simp
  have hM: "present_at (field doc_defs ''definitions'') [''Missing''] = None" by code_simp
  have hT: "present_at doc_defs [''info'', ''title''] = Some (JStr ''x'')" by code_simp
  have h1: "present_at doc_defs (segments ''#/definitions/A'') = Some ?A" by code_simp
  note tA = resolveRef_walk [OF doc, where ref = "''#/definitions/A''" and rest = "[''A'']"
      and ?is3.0 = False and c = "field doc_defs ''definitions''" and parts = "[''A'']" and v = ?A]
  note tM = resolveRef_walk [OF doc, where ref = "''#/definitions/Missing''" and rest = "[''Missing'']"
      and ?is3.0 = False and c = "field doc_defs ''definitions''" and parts = "[''Missing'']" and v = ?A]
  note tT = resolveRef_walk [OF doc, where ref = "''#/info/title''" and rest = "[]"
      and ?is3.0 = False and c = doc_defs and parts = "[''info'', ''title'']" and v = "JStr ''x''"]
  from tA [THEN conjunct1, rule_format, OF seg]
  have rb: "rebased False doc_defs (segments ''#/definitions/A'') = (field doc_defs ''definitions'', [''A''])" .
  from tA [THEN conjunct2, THEN conjunct2, THEN conjunct1, rule_format, OF conjI, OF rb pA] hA
  have rA: "resolveRef2 False doc_defs ''#/definitions/A'' = Inr (Value ?A)" by simp
  from tA [THEN conjunct2, THEN conjunct2, THEN conjunct2, THEN conjunct1, rule_format, OF hA]
  have ptr: "pointer (field doc_defs ''definitions'') [''A''] = Some ?A" .
  from tM [THEN conjunct1, rule_format, OF segm]
  have rbm: "rebased False doc_defs (segments ''#/definitions/Missing'') = (field doc_defs ''definitions'', [''Missing''])" .
  from tM [THEN conjunct2, THEN conjunct2, THEN conjunct1, rule_format, OF conjI, OF rbm pM] hM
  have rM: "resolveRef2 False doc_defs ''#/definitions/Missing'' = Inl SchemaParseError" by simp
  from tT [THEN conjunct2, THEN conjunct2, THEN conjunct1, rule_format, OF conjI, OF segt pT] hT
  have rT: "resolveRef2 False doc_defs ''#/info/title'' = Inr (Value (JStr ''x''))" by simp
  from tA [THEN conjunct2, THEN conjunct2, THEN conjunct2, THEN conjunct2, rule_format, OF p1] h1
  have r1: "resolveRef1 doc_defs ''#/definitions/A'' = Inr (Value ?A)" by simp
  from doc seg rb rA ptr rM rT r1 show ?thesis by (simp only: simp_thms)
qed

text \<open>
  The claim as stated fails in three ways. The first parser resolves a reference to a
  definition the document does not have to the substitute. The second parser does not check
  the store it rebases onto: on a Swagger 2.0 document without definitions the reference
  \<^verbatim>\<open>#/definitions\<close> resolves to \<^verbatim>\<open>undefined\<close>. And a segment that names a member every object
  inherits is not absent for the walk: both parsers resolve \<^verbatim>\<open>#/definitions/toString\<close> to the
  built-in function.
\<close>

theorem resolveRef_fallback_counterexample:
  "pointer doc_defs (segments ''#/definitions/Missing'') = None
   \<and> resolveRef1 doc_defs ''#/definitions/Missing'' = Inr (Value (JObj [(''type'', JStr ''object'')]))
   \<and> pointer doc_noid (segments ''#/definitions'') = None
   \<and> resolveRef2 False doc_noid ''#/definitions'' = Inr (Value JUndefined)
   \<and> pointer doc_defs (segments ''#/definitions/toString'') = None
   \<and> resolveRef2 False doc_defs ''#/definitions/toString'' = Inr (Builtin ''toString'')
   \<and> resolveRef1 doc_defs ''#/definitions/toString'' = Inr (Builtin ''toString'')"
  by code_simp


lemma capitalize_append: "p \<noteq> [] \<Longrightarrow> capitalize upper (p @ r) = capitalize upper p @ r"
  by (cases p) (simp_all add: capitalize_def)

lemma generateOperationId_synthesized:
  "generateOperationId upper method path = synthesized_name upper method path"
proof -
  let ?ps = "filter (\<lambda>p. p \<noteq> [] \<and> \<not> startsWith p ''{'') (split path CHR ''/'')"
  show ?thesis
  proof (cases ?ps)
    case Nil
    then show ?thesis
      by (simp add: generateOperationId_def synthesized_name_def capitalize_def)
  next
    case (Cons part parts)
    then have "part \<in> set ?ps" by simp
    then have "part \<noteq> []" by simp
    then have "capitalize upper (part @ concat (map (capitalize upper) parts))
                 = capitalize upper part @ concat (map (capitalize upper) parts)"
      by (rule capitalize_append)
    with Cons show ?thesis
      by (simp add: generateOperationId_def synthesized_name_def)
  qed
qed

lemma workflows_segments:
  "filter (\<lambda>p. p \<noteq> [] \<and> \<not> startsWith p ''{'') (split ''/workflows/{ns}/{name}'' CHR ''/'') = [''workflows'']"
  by code_simp

lemma get_lower: "toLowerCase ''get'' = ''get''"
  by code_simp

lemma getWorkflows:
  "upper CHR ''w'' = ''W'' \<Longrightarrow> generateOperationId upper ''get'' ''/workflows/{ns}/{name}'' = ''getWorkflows''"
  by (simp only: generateOperationId_synthesized synthesized_name_def workflows_segments get_lower)
     (simp add: capitalize_def)

text \<open>
  Claim C6, as the code has it. In the second parser the name generated from method and path
  is the method in lower case followed by the segments of the path, without the empty ones and
  the path parameters, each with its first code unit replaced by the upper case the engine
  gives it; \<^verbatim>\<open>get\<close> and \<^verbatim>\<open>/workflows/{ns}/{name}\<close> give \<^verbatim>\<open>getWorkflows\<close>. An operation
  without identifier (or with an empty one) is compiled and found under the generated name, an
  operation with an identifier under its own. The first parser skips an operation without
  identifier.
\<close>

theorem synthesized_operation_name:
  "generateOperationId upper method path = synthesized_name upper method path
   \<and> (upper CHR ''w'' = ''W'' \<longrightarrow>
        generateOperationId upper ''get'' ''/workflows/{ns}/{name}'' = ''getWorkflows'')
   \<and> (\<not> truthy (field operation ''operationId'') \<longrightarrow>
        opId2 upper method path operation = JStr (generateOperationId upper method path))
   \<and> (truthy (field operation ''operationId'') \<longrightarrow>
        opId2 upper method path operation = field operation ''operationId'')
   \<and> (isHttpMethod method \<and> isOperation2 operation \<and> opId2 upper method path operation = JStr opId
        \<and> methods_loop2 upper is3 stack doc path [(method, operation)] ([], []) = Inr (tools, processed)
        \<longrightarrow> (\<forall>t\<in>set tools. tool_name t = opId))
   \<and> (\<not> truthy (field operation ''operationId'') \<longrightarrow>
        methods_loop1 doc path ((method, operation) # rest) acc = methods_loop1 doc path rest acc)"
proof (intro conjI impI)
  show "generateOperationId upper method path = synthesized_name upper method path"
    by (rule generateOperationId_synthesized)
next
  assume "upper CHR ''w'' = ''W''"
  then show "generateOperationId upper ''get'' ''/workflows/{ns}/{name}'' = ''getWorkflows''"
    by (rule getWorkflows)
next
  assume "\<not> truthy (field operation ''operationId'')"
  then show "opId2 upper method path operation = JStr (generateOperationId upper method path)"
    by (simp add: opId2_def)
next
  assume "truthy (field operation ''operationId'')"
  then show "opId2 upper method path operation = field operation ''operationId''"
    by (simp add: opId2_def)
next
  assume a: "isHttpMethod method \<and> isOperation2 operation \<and> opId2 upper method path operation = JStr opId
        \<and> methods_loop2 upper is3 stack doc path [(method, operation)] ([], []) = Inr (tools, processed)"
  from a have h: "isHttpMethod method" "isOperation2 operation"
    "opId2 upper method path operation = JStr opId" by blast+
  from a have l: "methods_loop2 upper is3 stack doc path [(method, operation)] ([], []) = Inr (tools, processed)"
    by blast
  show "\<forall>t\<in>set tools. tool_name t = opId"
  proof (cases "operationToTool2 is3 stack doc opId path method (with_operationId operation (JStr opId))")
    case (Inl e)
    with l h show ?thesis by simp
  next
    case (Inr r)
    show ?thesis
    proof (cases r)
      case None
      with Inr l h show ?thesis by auto
    next
      case (Some t)
      with Inr l h have "tools = [t]" by auto
      with operationToTool2_name Inr Some show ?thesis by auto
    qed
  qed
next
  assume "\<not> truthy (field operation ''operationId'')"
  then show "methods_loop1 doc path ((method, operation) # rest) acc = methods_loop1 doc path rest acc"
    by (cases acc) (simp del: field.simps)
qed

text \<open>
  The names of some operations without identifier, the last with a table that has the
  capitals of the small e with acute accent and of the sharp s.
\<close>

theorem synthesized_operation_name_witness:
  "generateOperationId upper_ascii ''GET'' ''/api/v1/workflows/{ns}'' = ''getApiV1Workflows''
   \<and> synthesized_name upper_ascii ''GET'' ''/api/v1/workflows/{ns}'' = ''getApiV1Workflows''
   \<and> generateOperationId upper_ascii ''get'' ''/workflows/{ns}/{name}'' = ''getWorkflows''
   \<and> opId2 upper_ascii ''get'' ''/workflows/{ns}/{name}'' (JObj [(''summary'', JStr ''Get a workflow'')]) = JStr ''getWorkflows''
   \<and> opId2 upper_ascii ''get'' ''/x'' (JObj [(''operationId'', JStr ''getX'')]) = JStr ''getX''
   \<and> map_sum id (map tool_name) (generateTools2 upper_ascii False 3 doc_noid) = Inr [''getWorkflows'']
   \<and> synthesized_name
         (\<lambda>c. if c = CHR 0xE9 then [CHR 0xC9] else if c = CHR 0xDF then ''SS'' else upper_ascii c)
         ''get'' [CHR ''/'', CHR 0xE9, CHR ''x'', CHR ''/'', CHR 0xDF, CHR ''y'']
       = [CHR ''g'', CHR ''e'', CHR ''t'', CHR 0xC9, CHR ''x'', CHR ''S'', CHR ''S'', CHR ''y'']"
proof -
  let ?op = "JObj [(''summary'', JStr ''Get a workflow'')]"
  let ?up = "\<lambda>c. if c = CHR 0xE9 then [CHR 0xC9] else if c = CHR 0xDF then ''SS'' else upper_ascii c"
  note t = synthesized_operation_name [of upper_ascii "''GET''" "''/api/v1/workflows/{ns}''" ?op]
  note u = synthesized_operation_name [of upper_ascii "''get''" "''/workflows/{ns}/{name}''" ?op]
  note v = synthesized_operation_name [of upper_ascii "''get''" "''/x''" "JObj [(''operationId'', JStr ''getX'')]"]
  note w = synthesized_operation_name [of ?up "''get''" "[CHR ''/'', CHR 0xE9, CHR ''x'', CHR ''/'', CHR 0xDF, CHR ''y'']" ?op]
  have g: "generateOperationId upper_ascii ''GET'' ''/api/v1/workflows/{ns}'' = ''getApiV1Workflows''" by code_simp
  from t [THEN conjunct1] g
  have s: "synthesized_name upper_ascii ''GET'' ''/api/v1/workflows/{ns}'' = ''getApiV1Workflows''" by simp
  have uw: "upper_ascii CHR ''w'' = ''W''" by code_simp
  from u [THEN conjunct2, THEN conjunct1, rule_format, OF uw]
  have gw: "generateOperationId upper_ascii ''get'' ''/workflows/{ns}/{name}'' = ''getWorkflows''" .
  have f: "\<not> truthy (field ?op ''operationId'')" by simp
  from u [THEN conjunct2, THEN conjunct2, THEN conjunct1, rule_format, OF f] gw
  have o: "opId2 upper_ascii ''get'' ''/workflows/{ns}/{name}'' ?op = JStr ''getWorkflows''"
    by (simp only:)
  have f': "truthy (field (JObj [(''operationId'', JStr ''getX'')]) ''operationId'')" by simp
  from v [THEN conjunct2, THEN conjunct2, THEN conjunct2, THEN conjunct1, rule_format, OF f']
  have o': "opId2 upper_ascii ''get'' ''/x'' (JObj [(''operationId'', JStr ''getX'')]) = JStr ''getX''"
    by simp
  have gen: "map_sum id (map tool_name) (generateTools2 upper_ascii False 3 doc_noid) = Inr [''getWorkflows'']"
    by code_simp
  have gl: "generateOperationId ?up ''get'' [CHR ''/'', CHR 0xE9, CHR ''x'', CHR ''/'', CHR 0xDF, CHR ''y'']
              = [CHR ''g'', CHR ''e'', CHR ''t'', CHR 0xC9, CHR ''x'', CHR ''S'', CHR ''S'', CHR ''y'']"
    by code_simp
  from w [THEN conjunct1] gl
  have sl: "synthesized_name ?up ''get'' [CHR ''/'', CHR 0xE9, CHR ''x'', CHR ''/'', CHR 0xDF, CHR ''y'']
              = [CHR ''g'', CHR ''e'', CHR ''t'', CHR 0xC9, CHR ''x'', CHR ''S'', CHR ''S'', CHR ''y'']"
    by simp
  from g s gw o o' gen sl show ?thesis by (simp only: simp_thms)
qed

text \<open>
  The claim as stated fails on the first parser, which compiles no tool for an operation
  without identifier.
\<close>

theorem no_identifier_counterexample:
  "generateTools1 doc_noid = Inr []"
  by code_simp

section \<open>Validation: properties\<close>

lemma entries_truthy: "truthy v \<Longrightarrow> \<exists>es. entries v = Inr es"
  by (cases v) auto

lemma rethrown_SPE: "e \<noteq> OutsideModel \<Longrightarrow> rethrown e = SchemaParseError"
  by (cases e) (simp_all add: rethrown_def)

lemma validateSchema1_reject:
  assumes "\<not> (version_marker_ok c \<and> paths_nonempty c)"
  shows "\<exists>e. validateSchema1 c = Inl e \<and> e \<noteq> OutsideModel"
proof (cases "truthy c")
  case False
  then show ?thesis by (simp add: validateSchema1_def)
next
  case True
  show ?thesis
  proof (cases "startsWith3 (field c ''openapi'')")
    case (Inl e)
    then have "e = TypeError" by (auto simp: startsWith3_def split: json.splits)
    with Inl True show ?thesis by (simp add: validateSchema1_def)
  next
    case (Inr is3)
    then have is3: "is3 = (case field c ''openapi'' of JStr s \<Rightarrow> startsWith s ''3.'' | _ \<Rightarrow> False)"
      by (auto simp: startsWith3_def split: json.splits)
    show ?thesis
    proof (cases "version_marker_ok c")
      case False
      with is3 have "\<not> is3 \<and> field c ''swagger'' \<noteq> JStr ''2.0''"
        by (auto simp: version_marker_ok_def)
      with Inr True show ?thesis by (auto simp: validateSchema1_def simp del: field.simps)
    next
      case v: True
      with assms have np: "\<not> paths_nonempty c" by simp
      from v is3 have ok: "\<not> (\<not> is3 \<and> field c ''swagger'' \<noteq> JStr ''2.0'')"
        by (auto simp: version_marker_ok_def)
      show ?thesis
      proof (cases "truthy (field c ''paths'')")
        case False
        with Inr True ok show ?thesis by (auto simp: validateSchema1_def simp del: field.simps)
      next
        case t: True
        with np have "entries (field c ''paths'') = Inr []" by (simp add: paths_nonempty_def)
        with Inr True ok t show ?thesis by (auto simp: validateSchema1_def simp del: field.simps)
      qed
    qed
  qed
qed

lemma validateSchema2_reject:
  assumes "\<not> paths_nonempty c"
  shows "validateSchema2 c = Inl SchemaParseError"
proof (cases "truthy c \<and> truthy (field c ''paths'')")
  case False
  then show ?thesis by (auto simp: validateSchema2_def simp del: field.simps)
next
  case True
  with assms have "entries (field c ''paths'') = Inr []" by (simp add: paths_nonempty_def)
  with True show ?thesis by (simp add: validateSchema2_def del: field.simps)
qed

lemma detectVersion_errors: "detectVersion flag c = Inl e \<Longrightarrow> e \<noteq> OutsideModel"
  by (auto simp: detectVersion_def split: if_splits json.splits)

lemma detectVersion_reject:
  assumes "\<not> version_marker_ok c" "truthy c"
  shows "\<exists>e. detectVersion flag c = Inl e"
proof (cases c)
  case (JObj ps)
  show ?thesis
  proof (cases "field c ''openapi''")
    case (JStr s)
    with assms(1) have "\<not> startsWith s ''3.''" "field c ''swagger'' \<noteq> JStr ''2.0''"
      by (auto simp: version_marker_ok_def)
    with JStr JObj show ?thesis by (auto simp: detectVersion_def split: option.splits)
  next
    case JUndefined
    with assms(1) have "field c ''swagger'' \<noteq> JStr ''2.0''"
      by (auto simp: version_marker_ok_def)
    with JUndefined JObj show ?thesis by (auto simp: detectVersion_def split: option.splits)
  next
    case JNull
    with assms(1) have "field c ''swagger'' \<noteq> JStr ''2.0''"
      by (auto simp: version_marker_ok_def)
    with JNull JObj show ?thesis by (auto simp: detectVersion_def split: option.splits)
  next
    case (JBool b)
    with assms(1) have "field c ''swagger'' \<noteq> JStr ''2.0''"
      by (auto simp: version_marker_ok_def)
    with JBool JObj show ?thesis by (auto simp: detectVersion_def split: option.splits)
  next
    case (JNum n)
    with assms(1) have "field c ''swagger'' \<noteq> JStr ''2.0''"
      by (auto simp: version_marker_ok_def)
    with JNum JObj show ?thesis by (auto simp: detectVersion_def split: option.splits)
  next
    case (JArr xs)
    with assms(1) have "field c ''swagger'' \<noteq> JStr ''2.0''"
      by (auto simp: version_marker_ok_def)
    with JArr JObj show ?thesis by (auto simp: detectVersion_def split: option.splits)
  next
    case (JObj qs)
    with assms(1) have "field c ''swagger'' \<noteq> JStr ''2.0''"
      by (auto simp: version_marker_ok_def)
    with JObj \<open>c = JObj ps\<close> show ?thesis by (auto simp: detectVersion_def split: option.splits)
  qed
qed (use assms(2) in \<open>auto simp: detectVersion_def\<close>)

lemma initialize1_reject:
  assumes "\<not> (version_marker_ok c \<and> paths_nonempty c)"
  shows "fst (initialize1 p c) = Some SchemaParseError \<and> getTools (snd (initialize1 p c)) = getTools p"
proof -
  from validateSchema1_reject [OF assms] obtain e where
    "validateSchema1 c = Inl e" "e \<noteq> OutsideModel" by blast
  then show ?thesis by (simp add: initialize1_def rethrown_SPE getTools_def)
qed

lemma initialize2_reject:
  assumes "\<not> (version_marker_ok c \<and> paths_nonempty c)"
  shows "fst (initialize2 upper stack p c) = Some SchemaParseError
         \<and> getTools (snd (initialize2 upper stack p c)) = getTools p"
proof (cases "detectVersion (parser_isOpenAPI3 p) c")
  case (Inl e)
  with detectVersion_errors [OF Inl] show ?thesis
    by (simp add: initialize2_def rethrown_SPE getTools_def)
next
  case (Inr is3)
  have "validateSchema2 c = Inl SchemaParseError"
  proof (cases "paths_nonempty c")
    case False
    then show ?thesis by (rule validateSchema2_reject)
  next
    case True
    with assms have nv: "\<not> version_marker_ok c" by simp
    have "\<not> truthy c"
    proof
      assume "truthy c"
      from detectVersion_reject [OF nv this, of "parser_isOpenAPI3 p"] Inr show False by auto
    qed
    then show ?thesis by (simp add: validateSchema2_def)
  qed
  with Inr show ?thesis by (simp add: initialize2_def rethrown_def getTools_def)
qed

text \<open>
  Claim C8, as the code has it. In both parsers initialization succeeds only if the document
  has an \<^verbatim>\<open>openapi\<close> marker that is a string beginning with \<^verbatim>\<open>3.\<close> or a \<^verbatim>\<open>swagger\<close> marker
  equal to \<^verbatim>\<open>"2.0"\<close>, and paths with at least one key of their own. A document that violates
  either condition is rejected with a \<^verbatim>\<open>SchemaParseError\<close>, and the tools of the parser are
  what they were before.
\<close>

theorem initialization_requirements:
  "(fst (initialize1 p content) = None \<longrightarrow> version_marker_ok content \<and> paths_nonempty content)
   \<and> (\<not> (version_marker_ok content \<and> paths_nonempty content) \<longrightarrow>
        fst (initialize1 p content) = Some SchemaParseError
        \<and> getTools (snd (initialize1 p content)) = getTools p)
   \<and> (fst (initialize2 upper stack p content) = None \<longrightarrow> version_marker_ok content \<and> paths_nonempty content)
   \<and> (\<not> (version_marker_ok content \<and> paths_nonempty content) \<longrightarrow>
        fst (initialize2 upper stack p content) = Some SchemaParseError
        \<and> getTools (snd (initialize2 upper stack p content)) = getTools p)"
proof -
  let ?ok = "version_marker_ok content \<and> paths_nonempty content"
  have r1: "\<not> ?ok \<Longrightarrow> fst (initialize1 p content) = Some SchemaParseError
        \<and> getTools (snd (initialize1 p content)) = getTools p"
    by (rule initialize1_reject)
  have r2: "\<not> ?ok \<Longrightarrow> fst (initialize2 upper stack p content) = Some SchemaParseError
        \<and> getTools (snd (initialize2 upper stack p content)) = getTools p"
    by (rule initialize2_reject)
  have s1: "fst (initialize1 p content) = None \<Longrightarrow> ?ok"
  proof (rule ccontr)
    assume "fst (initialize1 p content) = None" "\<not> ?ok"
    with r1 show False by simp
  qed
  have s2: "fst (initialize2 upper stack p content) = None \<Longrightarrow> ?ok"
  proof (rule ccontr)
    assume "fst (initialize2 upper stack p content) = None" "\<not> ?ok"
    with r2 show False by simp
  qed
  from r1 r2 s1 s2 show ?thesis by blast
qed

theorem initialization_requirements_witness:
  "\<not> paths_nonempty doc_no_paths
   \<and> fst (initialize1 new_parser doc_no_paths) = Some SchemaParseError
   \<and> getTools (snd (initialize1 new_parser doc_no_paths)) = []
   \<and> fst (initialize2 upper_ascii 3 new_parser doc_no_paths) = Some SchemaParseError
   \<and> getTools (snd (initialize2 upper_ascii 3 new_parser doc_no_paths)) = []
   \<and> fst (initialize1 new_parser doc_x) = None
   \<and> fst (initialize2 upper_ascii 3 new_parser doc_x) = None
   \<and> version_marker_ok doc_x \<and> paths_nonempty doc_x"
proof -
  have np: "\<not> paths_nonempty doc_no_paths" by code_simp
  have g: "getTools new_parser = []" by (simp add: getTools_def new_parser_def)
  have i1: "fst (initialize1 new_parser doc_x) = None" by code_simp
  have i2: "fst (initialize2 upper_ascii 3 new_parser doc_x) = None" by code_simp
  note bad = initialization_requirements [of new_parser doc_no_paths upper_ascii 3]
  note good = initialization_requirements [of new_parser doc_x upper_ascii 3]
  from bad np g have b: "fst (initialize1 new_parser doc_no_paths) = Some SchemaParseError"
    "getTools (snd (initialize1 new_parser doc_no_paths)) = []"
    "fst (initialize2 upper_ascii 3 new_parser doc_no_paths) = Some SchemaParseError"
    "getTools (snd (initialize2 upper_ascii 3 new_parser doc_no_paths)) = []"
    by simp_all
  from good i1 have ok: "version_marker_ok doc_x \<and> paths_nonempty doc_x" by blast
  from np b i1 i2 ok show ?thesis by (simp only: simp_thms)
qed

text \<open>
  The claim as stated fails where the paths are no mapping: both parsers accept a document
  whose \<^verbatim>\<open>paths\<close> member is the string \<^verbatim>\<open>"abc"\<close> (its keys are the indices), and compile no
  tool from it.
\<close>

theorem string_paths_counterexample:
  "field doc_string_paths ''paths'' = JStr ''abc''
   \<and> initialize1 new_parser doc_string_paths
       = (None, \<lparr>parser_schema = doc_string_paths, parser_tools = [], parser_isOpenAPI3 = False\<rparr>)
   \<and> initialize2 upper_ascii 3 new_parser doc_string_paths
       = (None, \<lparr>parser_schema = doc_string_paths, parser_tools = [], parser_isOpenAPI3 = True\<rparr>)"
  by code_simp

section \<open>Cyclic references: properties\<close>



lemma resolveSchema1_cycle:
  assumes "field schema ''$ref'' = JStr ref" "ref \<noteq> []" "ref \<in> set visited"
  shows "resolveSchema1 doc schema visited = Inr (placeholder_schema ref)"
proof -
  from assms(1) have "truthy schema" by (cases schema) auto
  with assms show ?thesis by (simp add: resolveSchema1.simps del: field.simps)
qed

lemma resolveRef2_A: "resolveRef2 False doc_cyclic ''#/definitions/A'' = Inr (Value schema_A)"
  by code_simp

lemma resolveSchema2_cyclic_both:
  "resolveSchema2 False stack doc_cyclic (JObj [(''$ref'', JStr ''#/definitions/A'')]) = Inl RangeError
   \<and> resolveSchema2 False stack doc_cyclic schema_A = Inl RangeError"
proof (induction stack)
  case 0
  show ?case by simp
next
  case (Suc n)
  have a: "resolveSchema2 False (Suc n) doc_cyclic (JObj [(''$ref'', JStr ''#/definitions/A'')])
      = resolveSchema2 False n doc_cyclic schema_A"
    by (simp add: resolveRef2_A)
  have b: "resolveSchema2 False (Suc n) doc_cyclic schema_A = Inl RangeError"
    using Suc by (simp add: schema_A_def)
  from a b Suc show ?case by simp
qed

lemma generateTools2_cyclic: "generateTools2 upper False stack doc_cyclic = Inr []"
proof -
  have r: "resolveSchema2 False stack doc_cyclic (JObj [(''$ref'', JStr ''#/definitions/A'')]) = Inl RangeError"
    using resolveSchema2_cyclic_both by blast
  have m: "isHttpMethod ''post''" by code_simp
  have o: "opId2 upper ''post'' ''/a'' (JObj
              [(''operationId'', JStr ''postA''),
               (''parameters'', JArr [JObj [(''name'', JStr ''a''), (''in'', JStr ''body''),
                                            (''schema'', JObj [(''$ref'', JStr ''#/definitions/A'')])]])])
           = JStr ''postA''" by code_simp
  have w: "with_operationId (JObj
              [(''operationId'', JStr ''postA''),
               (''parameters'', JArr [JObj [(''name'', JStr ''a''), (''in'', JStr ''body''),
                                            (''schema'', JObj [(''$ref'', JStr ''#/definitions/A'')])]])]) (JStr ''postA'')
           = JObj
              [(''operationId'', JStr ''postA''),
               (''parameters'', JArr [JObj [(''name'', JStr ''a''), (''in'', JStr ''body''),
                                            (''schema'', JObj [(''$ref'', JStr ''#/definitions/A'')])]])]" by code_simp
  show ?thesis
    by (simp add: generateTools2_def doc_cyclic_def [symmetric] m o w isOperation2_def has_key_def
        operationToTool2_def buildInputSchemaV2_def make_tool_def caught_def r)
       (simp add: doc_cyclic_def m o w isOperation2_def has_key_def
        operationToTool2_def buildInputSchemaV2_def make_tool_def caught_def r [unfolded doc_cyclic_def])
qed

text \<open>
  Claim C2 holds of the first parser and fails on the second. The first resolver is total
  (its termination is proved with its definition), and a reference that is in the set of
  visited references resolves to the placeholder (\<open>resolveSchema1_cycle\<close>). The second
  resolver keeps no such set: on the document whose definition \<^verbatim>\<open>A\<close> has a property that
  refers to \<^verbatim>\<open>A\<close>, it exceeds every bound on the depth of the call stack, so the operation that
  uses \<^verbatim>\<open>A\<close> is dropped from the tools, where the first resolver returns the schema with the
  placeholder.
\<close>

theorem second_resolver_unbounded:
  "resolveSchema2 False stack doc_cyclic (JObj [(''$ref'', JStr ''#/definitions/A'')]) = Inl RangeError
   \<and> generateTools2 upper False stack doc_cyclic = Inr []
   \<and> resolveSchema1 doc_cyclic (JObj [(''$ref'', JStr ''#/definitions/A'')]) []
       = Inr (JObj [(''type'', JStr ''object''),
                    (''properties'', JObj [(''next'', placeholder_schema ''#/definitions/A'')])])"
proof -
  have "resolveSchema1 doc_cyclic (JObj [(''$ref'', JStr ''#/definitions/A'')]) []
       = Inr (JObj [(''type'', JStr ''object''),
                    (''properties'', JObj [(''next'', placeholder_schema ''#/definitions/A'')])])"
    by code_simp
  with resolveSchema2_cyclic_both generateTools2_cyclic show ?thesis by blast
qed

theorem second_resolver_unbounded_witness:
  "resolveSchema2 False 1000 doc_cyclic (JObj [(''$ref'', JStr ''#/definitions/A'')]) = Inl RangeError
   \<and> generateTools2 upper_ascii False 1000 doc_cyclic = Inr []"
  using second_resolver_unbounded [of 1000] by blast

section \<open>Parameters without schema: properties\<close>























section \<open>Duplicate operation identifiers\<close>

text \<open>
  Both compilers keep the set of the names they have compiled. An operation whose name is in
  the set is skipped; a name enters the set when its operation has given a tool. So the tools
  of a name, in a list of operations, are the tool of the first operation of that name that
  compiles.
\<close>

lemma first_wins1_Cons:
  "first_wins1 doc n (c # ops) =
     (if compiles1 doc n c then (case c of (pt, m, op) \<Rightarrow> tool_of (operationToTool1 doc n pt m op))
      else first_wins1 doc n ops)"
  by (simp add: first_wins1_def)

lemma first_wins1_Nil: "first_wins1 doc n [] = []"
  by (simp add: first_wins1_def)

lemma first_wins1_nonempty: "compiles1 doc n c \<Longrightarrow> (case c of (pt, m, op) \<Rightarrow> tool_of (operationToTool1 doc n pt m op)) \<noteq> []"
  by (cases c) (simp add: compiles1_def)

lemma first_wins1_append:
  "first_wins1 doc n (xs @ ys) =
     (if first_wins1 doc n xs \<noteq> [] then first_wins1 doc n xs else first_wins1 doc n ys)"
  by (induction xs) (auto simp: first_wins1_Cons first_wins1_Nil dest: first_wins1_nonempty)

lemma first_wins1_length: "length (first_wins1 doc n ops) \<le> 1"
  by (auto simp: first_wins1_def tool_of_def split: option.splits sum.splits)

lemma methods_loop1_first:
  assumes "methods_loop1 doc pt ms (tools, processed) = Inr (tools', processed')"
    and "set processed = tool_name ` set tools"
  shows "set processed' = tool_name ` set tools'
    \<and> (\<forall>n. filter (\<lambda>t. tool_name t = n) tools' =
          filter (\<lambda>t. tool_name t = n) tools
          @ (if n \<in> set processed then []
             else first_wins1 doc n (map (\<lambda>(m, op). (pt, m, op)) ms)))"
  using assms
proof (induction ms arbitrary: tools processed)
  case Nil
  then show ?case by (simp add: first_wins1_Nil)
next
  case (Cons a ms)
  obtain m op where a: "a = (m, op)" by (cases a)
  let ?c = "(pt, m, op)"
  let ?id = "field op ''operationId''"
  show ?case
  proof (cases "isHttpMethod m \<and> isOperation1 op \<and> truthy ?id")
    case False
    then have nc: "\<And>n. \<not> compiles1 doc n ?c" by (auto simp: compiles1_def)
    from False Cons.prems(1) a have "methods_loop1 doc pt ms (tools, processed) = Inr (tools', processed')"
      by (auto simp del: field.simps split: if_splits)
    from Cons.IH [OF this Cons.prems(2)] nc a show ?thesis
      by (simp add: first_wins1_Cons)
  next
    case True
    with Cons.prems(1) a obtain opId where id: "?id = JStr opId"
      by (cases ?id) (auto simp del: field.simps)
    with True have ne: "opId \<noteq> []" by simp
    have other: "\<And>n. n \<noteq> opId \<Longrightarrow> \<not> compiles1 doc n ?c" using id by (auto simp: compiles1_def)
    show ?thesis
    proof (cases "opId \<in> set processed")
      case p: True
      with True id Cons.prems(1) a have l: "methods_loop1 doc pt ms (tools, processed) = Inr (tools', processed')"
        by (simp del: field.simps)
      from Cons.IH [OF l Cons.prems(2)] have
        ih: "set processed' = tool_name ` set tools'"
        "\<And>n. filter (\<lambda>t. tool_name t = n) tools' =
          filter (\<lambda>t. tool_name t = n) tools
          @ (if n \<in> set processed then [] else first_wins1 doc n (map (\<lambda>(m, op). (pt, m, op)) ms))"
        by blast+
      have "\<And>n. filter (\<lambda>t. tool_name t = n) tools' =
          filter (\<lambda>t. tool_name t = n) tools
          @ (if n \<in> set processed then [] else first_wins1 doc n (map (\<lambda>(m, op). (pt, m, op)) (a # ms)))"
      proof -
        fix n
        show "filter (\<lambda>t. tool_name t = n) tools' =
          filter (\<lambda>t. tool_name t = n) tools
          @ (if n \<in> set processed then [] else first_wins1 doc n (map (\<lambda>(m, op). (pt, m, op)) (a # ms)))"
          using ih(2) [of n] p other [of n] a by (cases "n = opId") (auto simp: first_wins1_Cons)
      qed
      with ih(1) show ?thesis by blast
    next
      case np: False
      show ?thesis
      proof (cases "operationToTool1 doc opId pt m op")
        case (Inl e)
        with True id np Cons.prems(1) a show ?thesis by (simp del: field.simps)
      next
        case (Inr r)
        show ?thesis
        proof (cases r)
          case None
          with Inr True id np Cons.prems(1) a have
            l: "methods_loop1 doc pt ms (tools, processed) = Inr (tools', processed')"
            by (simp del: field.simps)
          have nc: "\<And>n. \<not> compiles1 doc n ?c"
            using Inr None id by (auto simp: compiles1_def tool_of_def)
          from Cons.IH [OF l Cons.prems(2)] nc a show ?thesis
            by (simp add: first_wins1_Cons)
        next
          case (Some t)
          with Inr True id np Cons.prems(1) a have
            l: "methods_loop1 doc pt ms (tools @ [t], opId # processed) = Inr (tools', processed')"
            by (simp del: field.simps)
          have tn: "tool_name t = opId" using Inr Some by (auto dest: operationToTool1_name)
          have inv: "set (opId # processed) = tool_name ` set (tools @ [t])"
            using Cons.prems(2) tn by auto
          from Cons.IH [OF l inv] have
            ih: "set processed' = tool_name ` set tools'"
            "\<And>n. filter (\<lambda>t. tool_name t = n) tools' =
              filter (\<lambda>t. tool_name t = n) (tools @ [t])
              @ (if n \<in> set (opId # processed) then []
                 else first_wins1 doc n (map (\<lambda>(m, op). (pt, m, op)) ms))"
            by blast+
          have c: "compiles1 doc opId ?c"
            using True id ne Inr Some by (auto simp: compiles1_def tool_of_def)
          have w: "tool_of (operationToTool1 doc opId pt m op) = [t]"
            using Inr Some by (simp add: tool_of_def)
          have "\<And>n. filter (\<lambda>t. tool_name t = n) tools' =
              filter (\<lambda>t. tool_name t = n) tools
              @ (if n \<in> set processed then [] else first_wins1 doc n (map (\<lambda>(m, op). (pt, m, op)) (a # ms)))"
          proof -
            fix n
            show "filter (\<lambda>t. tool_name t = n) tools' =
              filter (\<lambda>t. tool_name t = n) tools
              @ (if n \<in> set processed then [] else first_wins1 doc n (map (\<lambda>(m, op). (pt, m, op)) (a # ms)))"
            proof (cases "n = opId")
              case True
              with ih(2) [of n] tn np c w a show ?thesis by (simp add: first_wins1_Cons)
            next
              case False
              with ih(2) [of n] tn other [of n] a show ?thesis by (auto simp: first_wins1_Cons)
            qed
          qed
          with ih(1) show ?thesis by blast
        qed
      qed
    qed
  qed
qed

lemma in_processed_iff:
  assumes "set processed' = tool_name ` set tools'"
    and "filter (\<lambda>t. tool_name t = n) tools' = filter (\<lambda>t. tool_name t = n) tools @ (if n \<in> set processed then [] else w)"
    and "set processed = tool_name ` set tools"
  shows "n \<in> set processed' \<longleftrightarrow> n \<in> set processed \<or> w \<noteq> []"
proof -
  have a: "\<And>ts. n \<in> tool_name ` set ts \<longleftrightarrow> filter (\<lambda>t. tool_name t = n) ts \<noteq> []"
    by (auto simp: filter_empty_conv)
  show ?thesis using assms by (auto simp: a)
qed

lemma paths_loop1_first:
  assumes "paths_loop1 doc ps (tools, processed) = Inr (tools', processed')"
    and "set processed = tool_name ` set tools"
  shows "set processed' = tool_name ` set tools'
    \<and> (\<forall>n. filter (\<lambda>t. tool_name t = n) tools' =
          filter (\<lambda>t. tool_name t = n) tools
          @ (if n \<in> set processed then []
             else first_wins1 doc n (concat (map (\<lambda>(pt, item). item_operations pt item) ps))))"
  using assms
proof (induction ps arbitrary: tools processed)
  case Nil
  then show ?case by (simp add: first_wins1_Nil)
next
  case (Cons a ps)
  obtain pt item where a: "a = (pt, item)" by (cases a)
  from Cons.prems(1) a obtain ms where ms: "entries item = Inr ms"
    by (cases "entries item") simp_all
  with Cons.prems(1) a obtain t1 p1 where
    l1: "methods_loop1 doc pt ms (tools, processed) = Inr (t1, p1)"
    by (cases "methods_loop1 doc pt ms (tools, processed)") auto
  with Cons.prems(1) a ms have l2: "paths_loop1 doc ps (t1, p1) = Inr (tools', processed')" by simp
  have io: "item_operations pt item = map (\<lambda>(m, op). (pt, m, op)) ms"
    by (simp add: item_operations_def ms)
  from methods_loop1_first [OF l1 Cons.prems(2)] have
    s1: "set p1 = tool_name ` set t1"
    "\<And>n. filter (\<lambda>t. tool_name t = n) t1 =
          filter (\<lambda>t. tool_name t = n) tools
          @ (if n \<in> set processed then [] else first_wins1 doc n (item_operations pt item))"
    by (simp_all add: io)
  from Cons.IH [OF l2 s1(1)] have
    s2: "set processed' = tool_name ` set tools'"
    "\<And>n. filter (\<lambda>t. tool_name t = n) tools' =
          filter (\<lambda>t. tool_name t = n) t1
          @ (if n \<in> set p1 then []
             else first_wins1 doc n (concat (map (\<lambda>(pt, item). item_operations pt item) ps)))"
    by blast+
  have "\<And>n. filter (\<lambda>t. tool_name t = n) tools' =
          filter (\<lambda>t. tool_name t = n) tools
          @ (if n \<in> set processed then []
             else first_wins1 doc n (concat (map (\<lambda>(pt, item). item_operations pt item) (a # ps))))"
  proof -
    fix n
    from in_processed_iff [OF s1(1) s1(2) [of n] Cons.prems(2)]
    have m: "n \<in> set p1 \<longleftrightarrow> n \<in> set processed \<or> first_wins1 doc n (item_operations pt item) \<noteq> []" .
    show "filter (\<lambda>t. tool_name t = n) tools' =
          filter (\<lambda>t. tool_name t = n) tools
          @ (if n \<in> set processed then []
             else first_wins1 doc n (concat (map (\<lambda>(pt, item). item_operations pt item) (a # ps))))"
      using s1(2) [of n] s2(2) [of n] m a by (auto simp: first_wins1_append)
  qed
  with s2(1) show ?case by blast
qed

lemma distinct_by_filter:
  "(\<And>n. length (filter (\<lambda>t. f t = n) xs) \<le> 1) \<Longrightarrow> distinct (map f xs)"
proof (induction xs)
  case Nil
  then show ?case by simp
next
  case (Cons x xs)
  have "\<And>n. length (filter (\<lambda>t. f t = n) xs) \<le> 1"
  proof -
    fix n
    from Cons.prems [of n] show "length (filter (\<lambda>t. f t = n) xs) \<le> 1" by (auto split: if_splits)
  qed
  with Cons.IH have d: "distinct (map f xs)" by blast
  have "f x \<notin> f ` set xs"
  proof
    assume "f x \<in> f ` set xs"
    then have "filter (\<lambda>t. f t = f x) xs \<noteq> []" by (auto simp: filter_empty_conv)
    then have "length (filter (\<lambda>t. f t = f x) xs) \<ge> 1" by (cases "filter (\<lambda>t. f t = f x) xs") auto
    with Cons.prems [of "f x"] show False by simp
  qed
  with d show ?case by simp
qed

lemma generateTools1_first:
  assumes "generateTools1 doc = Inr tools"
  shows "(\<forall>n. filter (\<lambda>t. tool_name t = n) tools = first_wins1 doc n (all_operations doc))
         \<and> distinct (map tool_name tools)"
proof -
  from assms have t: "truthy doc" by (auto simp: generateTools1_def split: if_splits)
  from assms t obtain ps where ps: "entries (field doc ''paths'') = Inr ps"
    by (cases "entries (field doc ''paths'')") (auto simp: generateTools1_def)
  with assms t obtain processed where l: "paths_loop1 doc ps ([], []) = Inr (tools, processed)"
    by (cases "paths_loop1 doc ps ([], [])") (auto simp: generateTools1_def)
  from paths_loop1_first [OF l] have
    f: "\<And>n. filter (\<lambda>t. tool_name t = n) tools = first_wins1 doc n (all_operations doc)"
    by (simp add: all_operations_def ps)
  have "distinct (map tool_name tools)"
    by (rule distinct_by_filter) (simp only: f first_wins1_length)
  with f show ?thesis by blast
qed

lemma first_wins2_Cons:
  "first_wins2 upper is3 stack doc n (c # ops) =
     (if compiles2 upper is3 stack doc n c then (case c of (pt, m, op) \<Rightarrow> tool_of (operationToTool2 is3 stack doc n pt m (with_operationId op (JStr n))))
      else first_wins2 upper is3 stack doc n ops)"
  by (simp add: first_wins2_def)

lemma first_wins2_Nil: "first_wins2 upper is3 stack doc n [] = []"
  by (simp add: first_wins2_def)

lemma first_wins2_nonempty: "compiles2 upper is3 stack doc n c \<Longrightarrow> (case c of (pt, m, op) \<Rightarrow> tool_of (operationToTool2 is3 stack doc n pt m (with_operationId op (JStr n)))) \<noteq> []"
  by (cases c) (simp add: compiles2_def)

lemma first_wins2_append:
  "first_wins2 upper is3 stack doc n (xs @ ys) =
     (if first_wins2 upper is3 stack doc n xs \<noteq> [] then first_wins2 upper is3 stack doc n xs else first_wins2 upper is3 stack doc n ys)"
  by (induction xs) (auto simp: first_wins2_Cons first_wins2_Nil dest: first_wins2_nonempty)

lemma first_wins2_length: "length (first_wins2 upper is3 stack doc n ops) \<le> 1"
  by (auto simp: first_wins2_def tool_of_def split: option.splits sum.splits)

lemma methods_loop2_first:
  assumes "methods_loop2 upper is3 stack doc pt ms (tools, processed) = Inr (tools', processed')"
    and "set processed = tool_name ` set tools"
  shows "set processed' = tool_name ` set tools'
    \<and> (\<forall>n. filter (\<lambda>t. tool_name t = n) tools' =
          filter (\<lambda>t. tool_name t = n) tools
          @ (if n \<in> set processed then []
             else first_wins2 upper is3 stack doc n (map (\<lambda>(m, op). (pt, m, op)) ms)))"
  using assms
proof (induction ms arbitrary: tools processed)
  case Nil
  then show ?case by (simp add: first_wins2_Nil)
next
  case (Cons a ms)
  obtain m op where a: "a = (m, op)" by (cases a)
  let ?c = "(pt, m, op)"
  let ?id = "opId2 upper m pt op"
  show ?case
  proof (cases "isHttpMethod m \<and> isOperation2 op")
    case False
    then have nc: "\<And>n. \<not> compiles2 upper is3 stack doc n ?c" by (auto simp: compiles2_def)
    from False Cons.prems(1) a have "methods_loop2 upper is3 stack doc pt ms (tools, processed) = Inr (tools', processed')"
      by (auto simp del: field.simps split: if_splits)
    from Cons.IH [OF this Cons.prems(2)] nc a show ?thesis
      by (simp add: first_wins2_Cons)
  next
    case True
    with Cons.prems(1) a obtain opId where id: "?id = JStr opId"
      by (cases ?id) (auto simp del: field.simps)
    have other: "\<And>n. n \<noteq> opId \<Longrightarrow> \<not> compiles2 upper is3 stack doc n ?c" using id by (auto simp: compiles2_def)
    show ?thesis
    proof (cases "opId \<in> set processed")
      case p: True
      with True id Cons.prems(1) a have l: "methods_loop2 upper is3 stack doc pt ms (tools, processed) = Inr (tools', processed')"
        by (simp del: field.simps)
      from Cons.IH [OF l Cons.prems(2)] have
        ih: "set processed' = tool_name ` set tools'"
        "\<And>n. filter (\<lambda>t. tool_name t = n) tools' =
          filter (\<lambda>t. tool_name t = n) tools
          @ (if n \<in> set processed then [] else first_wins2 upper is3 stack doc n (map (\<lambda>(m, op). (pt, m, op)) ms))"
        by blast+
      have "\<And>n. filter (\<lambda>t. tool_name t = n) tools' =
          filter (\<lambda>t. tool_name t = n) tools
          @ (if n \<in> set processed then [] else first_wins2 upper is3 stack doc n (map (\<lambda>(m, op). (pt, m, op)) (a # ms)))"
      proof -
        fix n
        show "filter (\<lambda>t. tool_name t = n) tools' =
          filter (\<lambda>t. tool_name t = n) tools
          @ (if n \<in> set processed then [] else first_wins2 upper is3 stack doc n (map (\<lambda>(m, op). (pt, m, op)) (a # ms)))"
          using ih(2) [of n] p other [of n] a by (cases "n = opId") (auto simp: first_wins2_Cons)
      qed
      with ih(1) show ?thesis by blast
    next
      case np: False
      show ?thesis
      proof (cases "operationToTool2 is3 stack doc opId pt m (with_operationId op (JStr opId))")
        case (Inl e)
        with True id np Cons.prems(1) a show ?thesis by (simp del: field.simps)
      next
        case (Inr r)
        show ?thesis
        proof (cases r)
          case None
          with Inr True id np Cons.prems(1) a have
            l: "methods_loop2 upper is3 stack doc pt ms (tools, processed) = Inr (tools', processed')"
            by (simp del: field.simps)
          have nc: "\<And>n. \<not> compiles2 upper is3 stack doc n ?c"
            using Inr None id by (auto simp: compiles2_def tool_of_def)
          from Cons.IH [OF l Cons.prems(2)] nc a show ?thesis
            by (simp add: first_wins2_Cons)
        next
          case (Some t)
          with Inr True id np Cons.prems(1) a have
            l: "methods_loop2 upper is3 stack doc pt ms (tools @ [t], opId # processed) = Inr (tools', processed')"
            by (simp del: field.simps)
          have tn: "tool_name t = opId" using Inr Some by (auto dest: operationToTool2_name)
          have inv: "set (opId # processed) = tool_name ` set (tools @ [t])"
            using Cons.prems(2) tn by auto
          from Cons.IH [OF l inv] have
            ih: "set processed' = tool_name ` set tools'"
            "\<And>n. filter (\<lambda>t. tool_name t = n) tools' =
              filter (\<lambda>t. tool_name t = n) (tools @ [t])
              @ (if n \<in> set (opId # processed) then []
                 else first_wins2 upper is3 stack doc n (map (\<lambda>(m, op). (pt, m, op)) ms))"
            by blast+
          have c: "compiles2 upper is3 stack doc opId ?c"
            using True id Inr Some by (auto simp: compiles2_def tool_of_def)
          have w: "tool_of (operationToTool2 is3 stack doc opId pt m (with_operationId op (JStr opId))) = [t]"
            using Inr Some by (simp add: tool_of_def)
          have "\<And>n. filter (\<lambda>t. tool_name t = n) tools' =
              filter (\<lambda>t. tool_name t = n) tools
              @ (if n \<in> set processed then [] else first_wins2 upper is3 stack doc n (map (\<lambda>(m, op). (pt, m, op)) (a # ms)))"
          proof -
            fix n
            show "filter (\<lambda>t. tool_name t = n) tools' =
              filter (\<lambda>t. tool_name t = n) tools
              @ (if n \<in> set processed then [] else first_wins2 upper is3 stack doc n (map (\<lambda>(m, op). (pt, m, op)) (a # ms)))"
            proof (cases "n = opId")
              case True
              with ih(2) [of n] tn np c w a show ?thesis by (simp add: first_wins2_Cons)
            next
              case False
              with ih(2) [of n] tn other [of n] a show ?thesis by (auto simp: first_wins2_Cons)
            qed
          qed
          with ih(1) show ?thesis by blast
        qed
      qed
    qed
  qed
qed

lemma paths_loop2_first:
  assumes "paths_loop2 upper is3 stack doc ps (tools, processed) = Inr (tools', processed')"
    and "set processed = tool_name ` set tools"
  shows "set processed' = tool_name ` set tools'
    \<and> (\<forall>n. filter (\<lambda>t. tool_name t = n) tools' =
          filter (\<lambda>t. tool_name t = n) tools
          @ (if n \<in> set processed then []
             else first_wins2 upper is3 stack doc n (concat (map (\<lambda>(pt, item). item_operations pt item) ps))))"
  using assms
proof (induction ps arbitrary: tools processed)
  case Nil
  then show ?case by (simp add: first_wins2_Nil)
next
  case (Cons a ps)
  obtain pt item where a: "a = (pt, item)" by (cases a)
  from Cons.prems(1) a obtain ms where ms: "entries item = Inr ms"
    by (cases "entries item") simp_all
  with Cons.prems(1) a obtain t1 p1 where
    l1: "methods_loop2 upper is3 stack doc pt ms (tools, processed) = Inr (t1, p1)"
    by (cases "methods_loop2 upper is3 stack doc pt ms (tools, processed)") auto
  with Cons.prems(1) a ms have l2: "paths_loop2 upper is3 stack doc ps (t1, p1) = Inr (tools', processed')" by simp
  have io: "item_operations pt item = map (\<lambda>(m, op). (pt, m, op)) ms"
    by (simp add: item_operations_def ms)
  from methods_loop2_first [OF l1 Cons.prems(2)] have
    s1: "set p1 = tool_name ` set t1"
    "\<And>n. filter (\<lambda>t. tool_name t = n) t1 =
          filter (\<lambda>t. tool_name t = n) tools
          @ (if n \<in> set processed then [] else first_wins2 upper is3 stack doc n (item_operations pt item))"
    by (simp_all add: io)
  from Cons.IH [OF l2 s1(1)] have
    s2: "set processed' = tool_name ` set tools'"
    "\<And>n. filter (\<lambda>t. tool_name t = n) tools' =
          filter (\<lambda>t. tool_name t = n) t1
          @ (if n \<in> set p1 then []
             else first_wins2 upper is3 stack doc n (concat (map (\<lambda>(pt, item). item_operations pt item) ps)))"
    by blast+
  have "\<And>n. filter (\<lambda>t. tool_name t = n) tools' =
          filter (\<lambda>t. tool_name t = n) tools
          @ (if n \<in> set processed then []
             else first_wins2 upper is3 stack doc n (concat (map (\<lambda>(pt, item). item_operations pt item) (a # ps))))"
  proof -
    fix n
    from in_processed_iff [OF s1(1) s1(2) [of n] Cons.prems(2)]
    have m: "n \<in> set p1 \<longleftrightarrow> n \<in> set processed \<or> first_wins2 upper is3 stack doc n (item_operations pt item) \<noteq> []" .
    show "filter (\<lambda>t. tool_name t = n) tools' =
          filter (\<lambda>t. tool_name t = n) tools
          @ (if n \<in> set processed then []
             else first_wins2 upper is3 stack doc n (concat (map (\<lambda>(pt, item). item_operations pt item) (a # ps))))"
      using s1(2) [of n] s2(2) [of n] m a by (auto simp: first_wins2_append)
  qed
  with s2(1) show ?case by blast
qed

lemma generateTools2_first:
  assumes "generateTools2 upper is3 stack doc = Inr tools"
  shows "(\<forall>n. filter (\<lambda>t. tool_name t = n) tools = first_wins2 upper is3 stack doc n (all_operations doc))
         \<and> distinct (map tool_name tools)"
proof -
  from assms have t: "truthy doc" by (auto simp: generateTools2_def split: if_splits)
  from assms t obtain ps where ps: "entries (field doc ''paths'') = Inr ps"
    by (cases "entries (field doc ''paths'')") (auto simp: generateTools2_def)
  with assms t obtain processed where l: "paths_loop2 upper is3 stack doc ps ([], []) = Inr (tools, processed)"
    by (cases "paths_loop2 upper is3 stack doc ps ([], [])") (auto simp: generateTools2_def)
  from paths_loop2_first [OF l] have
    f: "\<And>n. filter (\<lambda>t. tool_name t = n) tools = first_wins2 upper is3 stack doc n (all_operations doc)"
    by (simp add: all_operations_def ps)
  have "distinct (map tool_name tools)"
    by (rule distinct_by_filter) (simp only: f first_wins2_length)
  with f show ?thesis by blast
qed

text \<open>
  Claim C4, as the code has it. When a compiler returns a list of tools, the tools of any name
  in it are the tool of the first operation, in the order of the document, that is compiled
  under that name and gives a tool: one tool or none. So the names of the compiled tools are
  pairwise distinct. An operation that fails to compile does not take its name: a later
  operation of the same name gives the tool.
\<close>

theorem first_compiled_occurrence_wins:
  "(generateTools1 doc = Inr tools \<longrightarrow>
      (\<forall>n. filter (\<lambda>t. tool_name t = n) tools = first_wins1 doc n (all_operations doc))
      \<and> distinct (map tool_name tools))
   \<and> (generateTools2 upper is3 stack doc = Inr tools \<longrightarrow>
      (\<forall>n. filter (\<lambda>t. tool_name t = n) tools = first_wins2 upper is3 stack doc n (all_operations doc))
      \<and> distinct (map tool_name tools))"
  using generateTools1_first [of doc tools] generateTools2_first [of upper is3 stack doc tools] by blast

text \<open>
  The document with two operations \<^verbatim>\<open>foo\<close>: the first parser compiles the first, whose missing
  definition it replaces; the second parser fails on the first and compiles the second.
\<close>

theorem first_compiled_occurrence_wins_witness:
  "generateTools1 doc_dup = Inr [the_first]
   \<and> first_wins1 doc_dup ''foo'' (all_operations doc_dup) = [the_first]
   \<and> generateTools2 upper_ascii False 3 doc_dup = Inr [the_second]
   \<and> first_wins2 upper_ascii False 3 doc_dup ''foo'' (all_operations doc_dup) = [the_second]"
proof -
  have g1: "generateTools1 doc_dup = Inr [the_first]" by code_simp
  have g2: "generateTools2 upper_ascii False 3 doc_dup = Inr [the_second]" by code_simp
  have n1: "tool_name the_first = ''foo''" by code_simp
  have n2: "tool_name the_second = ''foo''" by code_simp
  from first_compiled_occurrence_wins [of doc_dup "[the_first]" upper_ascii False 3, THEN conjunct1, rule_format, OF g1]
  have "filter (\<lambda>t. tool_name t = ''foo'') [the_first] = first_wins1 doc_dup ''foo'' (all_operations doc_dup)"
    by blast
  with n1 have w1: "first_wins1 doc_dup ''foo'' (all_operations doc_dup) = [the_first]" by simp
  from first_compiled_occurrence_wins [of doc_dup "[the_second]" upper_ascii False 3, THEN conjunct2, rule_format, OF g2]
  have "filter (\<lambda>t. tool_name t = ''foo'') [the_second] = first_wins2 upper_ascii False 3 doc_dup ''foo'' (all_operations doc_dup)"
    by blast
  with n2 have w2: "first_wins2 upper_ascii False 3 doc_dup ''foo'' (all_operations doc_dup) = [the_second]" by simp
  from g1 w1 g2 w2 show ?thesis by (simp only: simp_thms)
qed

text \<open>
  The claim as the specification words it fails: the first occurrence of \<^verbatim>\<open>foo\<close> in the
  document is the operation of \<^verbatim>\<open>/a\<close>, and the second parser gives the tool of the operation of
  \<^verbatim>\<open>/b\<close>.
\<close>

theorem later_occurrence_counterexample:
  "all_operations doc_dup = [(''/a'', ''get'', op_foo_first), (''/b'', ''get'', op_foo_second)]
   \<and> operationToTool2 False 3 doc_dup ''foo'' ''/a'' ''get'' op_foo_first = Inr None
   \<and> generateTools2 upper_ascii False 3 doc_dup
       = Inr [\<lparr>tool_name = ''foo'', tool_description = ''second'',
               tool_inputSchema = JObj [(''type'', JStr ''object''), (''properties'', JObj []),
                                        (''required'', JUndefined),
                                        (''additionalProperties'', JBool False)]\<rparr>]"
  by code_simp

section \<open>The dispatcher\<close>

lemma fold_queryStep:
  "distinct (map fst ps) \<Longrightarrow> fst ` set ps \<inter> dom (map_of q) = {} \<Longrightarrow>
   map_of (fold (queryStep pp) ps q) k =
     (if k \<noteq> ''body'' \<and> k \<notin> set pp \<and> \<not> startsWith k ''_'' \<and> map_of ps k \<noteq> None
      then map_of ps k else map_of q k)"
proof (induction ps arbitrary: q)
  case Nil
  then show ?case by simp
next
  case (Cons a ps)
  obtain k' v' where a: "a = (k', v')" by (cases a)
  have d: "distinct (map fst ps)" and nk: "k' \<notin> fst ` set ps" using Cons.prems a by auto
  have disj: "fst ` set ps \<inter> dom (map_of (queryStep pp a q)) = {}"
    using Cons.prems a nk by (auto simp: queryStep_def map_of_obj_set)
  have nq: "map_of q k' = None" using Cons.prems a by auto
  have nps: "map_of ps k' = None" using nk by (simp add: map_of_eq_None_iff)
  show ?case
    using Cons.IH [OF d disj] a nq nps
    by (auto simp: queryStep_def map_of_obj_set)
qed

lemma sendRequest_call:
  "sendRequest method url b q = Inr call \<Longrightarrow>
   call_url call = url \<and> call_params call = q \<and>
   call_data call =
     (if toLowerCase method = ''post'' \<or> toLowerCase method = ''put'' \<or> toLowerCase method = ''patch''
      then Some b else None)"
  by (auto simp: sendRequest_def split: if_splits)












lemma getDyn_own:
  "map_of ps k = Some v \<Longrightarrow> getDyn (JObj ps) k = Inr (Value v)"
  by simp


lemma getDyn_total: "\<exists>v. getDyn (JObj ps) k = Inr v"
  by (cases "map_of ps k") auto

lemma substitute_Cons:
  "substitute (m # ms) (JObj ps) (url, pp) = Inr r \<Longrightarrow>
   (getDyn (JObj ps) (paramNameOf m) = Inr (Value JUndefined) \<and> substitute ms (JObj ps) (url, pp) = Inr r)
   \<or> (\<exists>v u. getDyn (JObj ps) (paramNameOf m) = Inr v \<and> v \<noteq> Value JUndefined
          \<and> replaceWith url m v = Inr u
          \<and> substitute ms (JObj ps) (u, pp @ [paramNameOf m]) = Inr r)"
  by (simp split: sum.splits if_splits del: getDyn.simps)

lemma substitute_pathParams:
  "substitute ms (JObj ps) (url, pp) = Inr (url', pp') \<Longrightarrow>
   set pp' = set pp \<union> {paramNameOf m | m. m \<in> set ms
                           \<and> getDyn (JObj ps) (paramNameOf m) \<noteq> Inr (Value JUndefined)}"
proof (induction ms arbitrary: url pp)
  case Nil
  then show ?case by simp
next
  case (Cons m ms)
  from substitute_Cons [OF Cons.prems] show ?case
  proof (elim disjE conjE exE)
    assume g: "getDyn (JObj ps) (paramNameOf m) = Inr (Value JUndefined)"
      and s: "substitute ms (JObj ps) (url, pp) = Inr (url', pp')"
    from Cons.IH [OF s] g show ?thesis by (auto simp del: getDyn.simps)
  next
    fix v u
    assume g: "getDyn (JObj ps) (paramNameOf m) = Inr v" "v \<noteq> Value JUndefined"
      and s: "substitute ms (JObj ps) (u, pp @ [paramNameOf m]) = Inr (url', pp')"
    from Cons.IH [OF s] g show ?thesis by (auto simp del: getDyn.simps)
  qed
qed

lemma handle_parts:
  assumes look: "getOperationInfo operationId = Inr (Some (method, path, operation))"
    and res: "handleOpenAPITool getOperationInfo operationId (JObj ps) = Inr call"
  shows "\<exists>pp. substitute (placeholders path) (JObj ps) (path, []) = Inr (call_url call, pp)
           \<and> call_params call =
               (if fold (queryStep pp) ps [] \<noteq> [] then JObj (fold (queryStep pp) ps []) else JUndefined)
           \<and> call_data call =
               (if toLowerCase method = ''post'' \<or> toLowerCase method = ''put'' \<or> toLowerCase method = ''patch''
                then Some (field (JObj ps) ''body'') else None)"
proof -
  from res look obtain url pp where
    s: "substitute (placeholders path) (JObj ps) (path, []) = Inr (url, pp)"
    by (cases "substitute (placeholders path) (JObj ps) (path, [])")
       (auto simp: handleOpenAPITool_def)
  let ?q = "fold (queryStep pp) ps []"
  from res look s have
    "sendRequest method url (field (JObj ps) ''body'') (if ?q \<noteq> [] then JObj ?q else JUndefined) = Inr call"
    by (simp add: handleOpenAPITool_def Let_def del: field.simps)
  from sendRequest_call [OF this] s show ?thesis by (auto simp del: field.simps)
qed

lemma query_parameters:
  assumes look: "getOperationInfo operationId = Inr (Some (method, path, operation))"
    and d: "distinct (map fst ps)"
    and res: "handleOpenAPITool getOperationInfo operationId (JObj ps) = Inr call"
  shows "field (call_params call) k =
             (if k = ''body'' \<or> startsWith k ''_''
                 \<or> (k \<in> paramNameOf ` set (placeholders path) \<and> field (JObj ps) k \<noteq> JUndefined)
              then JUndefined else field (JObj ps) k)"
proof -
  from handle_parts [where getOperationInfo = getOperationInfo and operationId = operationId, OF look res]
  obtain pp where
    s: "substitute (placeholders path) (JObj ps) (path, []) = Inr (call_url call, pp)"
    and q: "call_params call =
               (if fold (queryStep pp) ps [] \<noteq> [] then JObj (fold (queryStep pp) ps []) else JUndefined)"
    by blast
  have pp: "set pp = {paramNameOf m | m. m \<in> set (placeholders path)
                         \<and> getDyn (JObj ps) (paramNameOf m) \<noteq> Inr (Value JUndefined)}"
    using substitute_pathParams [OF s] by simp
  have m: "map_of (fold (queryStep pp) ps []) k =
     (if k \<noteq> ''body'' \<and> k \<notin> set pp \<and> \<not> startsWith k ''_'' \<and> map_of ps k \<noteq> None
      then map_of ps k else None)"
    using fold_queryStep [of ps "[]" pp] d by simp
  have f: "field (call_params call) k =
       (case map_of (fold (queryStep pp) ps []) k of None \<Rightarrow> JUndefined | Some v \<Rightarrow> v)"
    using q by (cases "fold (queryStep pp) ps []") auto
  show ?thesis
  proof (cases "map_of ps k")
    case None
    then show ?thesis unfolding f m by simp
  next
    case (Some v)
    then have "k \<in> set pp \<longleftrightarrow> k \<in> paramNameOf ` set (placeholders path) \<and> v \<noteq> JUndefined"
      unfolding pp by auto
    with Some show ?thesis unfolding f m by auto
  qed
qed

lemma callReplacer_name:
  "callReplacer name x = Inl e \<Longrightarrow> callReplacer name y = Inl e"
  by (auto simp: callReplacer_def split: if_splits)

lemma replaceWith_ok:
  assumes f: "fillable ps n" and g: "getDyn (JObj ps) n = Inr v"
  shows "\<exists>u. replaceWith url m v = Inr u"
proof (cases "map_of ps n")
  case (Some w)
  with g have v: "v = Value w" by simp
  from f Some obtain r where "toStr w = Inr r" by (auto simp: fillable_def split: sum.splits)
  with v show ?thesis by (simp add: replaceWith_def)
next
  case None
  show ?thesis
  proof (cases "n \<in> set protoMembers")
    case False
    with None g have "v = Value JUndefined" by simp
    then show ?thesis by (simp add: replaceWith_def)
  next
    case True
    with None g have v: "v = Builtin n" by simp
    show ?thesis
    proof (cases "n = ''__proto__''")
      case True
      with v show ?thesis by (simp add: replaceWith_def)
    next
      case np: False
      with f None True obtain r where r: "callReplacer n [] = Inr r"
        by (auto simp: fillable_def split: sum.splits)
      have "\<exists>r'. callReplacer n m = Inr r'"
      proof (cases "callReplacer n m")
        case (Inl e)
        from callReplacer_name [OF this, of "[]"] r show ?thesis by simp
      qed blast
      then obtain r' where "callReplacer n m = Inr r'" ..
      with v np show ?thesis by (cases "split_first m url") (auto simp: replaceWith_def)
    qed
  qed
qed

lemma substitute_ok:
  "\<forall>m\<in>set ms. fillable ps (paramNameOf m) \<Longrightarrow> \<exists>r. substitute ms (JObj ps) (url, pp) = Inr r"
proof (induction ms arbitrary: url pp)
  case Nil
  then show ?case by simp
next
  case (Cons m ms)
  from getDyn_total obtain v where g: "getDyn (JObj ps) (paramNameOf m) = Inr v" ..
  from Cons.prems have f: "fillable ps (paramNameOf m)" and rest: "\<forall>m\<in>set ms. fillable ps (paramNameOf m)"
    by simp_all
  from replaceWith_ok [OF f g] obtain u where u: "replaceWith url m v = Inr u" ..
  show ?case
  proof (cases "v = Value JUndefined")
    case True
    with g Cons.IH [OF rest, of url pp] show ?thesis by (simp del: getDyn.simps)
  next
    case False
    with g u Cons.IH [OF rest, of u "pp @ [paramNameOf m]"] show ?thesis by (simp del: getDyn.simps)
  qed
qed

lemma sendRequest_ok: "supported method \<Longrightarrow> \<exists>call. sendRequest method url b q = Inr call"
  by (auto simp: supported_def sendRequest_def)

lemma dispatch_succeeds:
  assumes look: "getOperationInfo operationId = Inr (Some (method, path, operation))"
    and sup: "supported method"
    and fill: "\<forall>m\<in>set (placeholders path). fillable ps (paramNameOf m)"
  shows "\<exists>call. handleOpenAPITool getOperationInfo operationId (JObj ps) = Inr call"
proof -
  from substitute_ok [OF fill] obtain url pp where
    s: "substitute (placeholders path) (JObj ps) (path, []) = Inr (url, pp)" by (metis surj_pair)
  let ?q = "fold (queryStep pp) ps []"
  from sendRequest_ok [OF sup] obtain call where
    "sendRequest method url (field (JObj ps) ''body'') (if ?q \<noteq> [] then JObj ?q else JUndefined) = Inr call"
    by blast
  with look s have "handleOpenAPITool getOperationInfo operationId (JObj ps) = Inr call"
    by (simp add: handleOpenAPITool_def Let_def del: field.simps)
  then show ?thesis ..
qed





lemma find_method1_step:
  "find_method1 n pt ((m, op) # ms) =
     (if carries1 n (pt, m, op) then Some (m, pt, op) else find_method1 n pt ms)"
  by (simp add: carries1_def del: field.simps)

lemma find_method1_find:
  "find_method1 n pt ms =
     map_option (\<lambda>(pt, m, op). (m, pt, op)) (find (carries1 n) (map (\<lambda>(m, op). (pt, m, op)) ms))"
proof (induction ms)
  case Nil
  then show ?case by simp
next
  case (Cons a ms)
  obtain m op where a: "a = (m, op)" by (cases a)
  show ?case
  proof (cases "carries1 n (pt, m, op)")
    case True
    with a show ?thesis by (simp only: find_method1_step) simp
  next
    case False
    with a Cons.IH show ?thesis by (simp only: find_method1_step) simp
  qed
qed

lemma find_method2_step:
  "find_method2 upper n pt ((m, op) # ms) =
     (if carries2 upper n (pt, m, op) then Some (m, pt, with_operationId op (JStr n))
      else find_method2 upper n pt ms)"
  by (simp add: carries2_def)

lemma find_method2_find:
  "find_method2 upper n pt ms =
     map_option (\<lambda>(pt, m, op). (m, pt, with_operationId op (JStr n)))
       (find (carries2 upper n) (map (\<lambda>(m, op). (pt, m, op)) ms))"
proof (induction ms)
  case Nil
  then show ?case by simp
next
  case (Cons a ms)
  obtain m op where a: "a = (m, op)" by (cases a)
  show ?case
  proof (cases "carries2 upper n (pt, m, op)")
    case True
    with a show ?thesis by (simp only: find_method2_step) simp
  next
    case False
    with a Cons.IH show ?thesis by (simp only: find_method2_step) simp
  qed
qed

lemma find_over_append:
  "find P (xs @ ys) = (case find P xs of None \<Rightarrow> find P ys | Some x \<Rightarrow> Some x)"
  by (induction xs) auto

lemma find_path1_find:
  "\<forall>c\<in>set ps. \<exists>ms. entries (snd c) = Inr ms \<Longrightarrow>
   find_path1 n ps =
     Inr (map_option (\<lambda>(pt, m, op). (m, pt, op))
            (find (carries1 n) (concat (map (\<lambda>(pt, item). item_operations pt item) ps))))"
proof (induction ps)
  case Nil
  then show ?case by simp
next
  case (Cons a ps)
  obtain pt item where a: "a = (pt, item)" by (cases a)
  from Cons.prems a obtain ms where ms: "entries item = Inr ms" by auto
  from Cons.prems have rest: "\<forall>c\<in>set ps. \<exists>ms. entries (snd c) = Inr ms" by simp
  have io: "item_operations pt item = map (\<lambda>(m, op). (pt, m, op)) ms"
    by (simp add: item_operations_def ms)
  show ?case
    using Cons.IH [OF rest] a ms io find_method1_find [of n pt ms]
    by (cases "find (carries1 n) (map (\<lambda>(m, op). (pt, m, op)) ms)") (simp_all add: find_over_append)
qed

lemma find_path2_find:
  "\<forall>c\<in>set ps. \<exists>ms. entries (snd c) = Inr ms \<Longrightarrow>
   find_path2 upper n ps =
     Inr (map_option (\<lambda>(pt, m, op). (m, pt, with_operationId op (JStr n)))
            (find (carries2 upper n) (concat (map (\<lambda>(pt, item). item_operations pt item) ps))))"
proof (induction ps)
  case Nil
  then show ?case by simp
next
  case (Cons a ps)
  obtain pt item where a: "a = (pt, item)" by (cases a)
  from Cons.prems a obtain ms where ms: "entries item = Inr ms" by auto
  from Cons.prems have rest: "\<forall>c\<in>set ps. \<exists>ms. entries (snd c) = Inr ms" by simp
  have io: "item_operations pt item = map (\<lambda>(m, op). (pt, m, op)) ms"
    by (simp add: item_operations_def ms)
  show ?case
    using Cons.IH [OF rest] a ms io find_method2_find [of upper n pt ms]
    by (cases "find (carries2 upper n) (map (\<lambda>(m, op). (pt, m, op)) ms)") (simp_all add: find_over_append)
qed

lemma paths_loop1_entries:
  "paths_loop1 doc ps acc = Inr r \<Longrightarrow> \<forall>c\<in>set ps. \<exists>ms. entries (snd c) = Inr ms"
proof (induction ps arbitrary: acc)
  case Nil
  then show ?case by simp
next
  case (Cons a ps)
  obtain pt item where a: "a = (pt, item)" by (cases a)
  from Cons.prems a obtain ms where ms: "entries item = Inr ms"
    by (cases "entries item") simp_all
  with Cons.prems a obtain acc' where "paths_loop1 doc ps acc' = Inr r"
    by (cases "methods_loop1 doc pt ms acc") auto
  from Cons.IH [OF this] a ms show ?case by simp
qed

lemma paths_loop2_entries:
  "paths_loop2 upper is3 stack doc ps acc = Inr r \<Longrightarrow> \<forall>c\<in>set ps. \<exists>ms. entries (snd c) = Inr ms"
proof (induction ps arbitrary: acc)
  case Nil
  then show ?case by simp
next
  case (Cons a ps)
  obtain pt item where a: "a = (pt, item)" by (cases a)
  from Cons.prems a obtain ms where ms: "entries item = Inr ms"
    by (cases "entries item") simp_all
  with Cons.prems a obtain acc' where "paths_loop2 upper is3 stack doc ps acc' = Inr r"
    by (cases "methods_loop2 upper is3 stack doc pt ms acc") auto
  from Cons.IH [OF this] a ms show ?case by simp
qed

lemma getOperationInfo1_find:
  assumes "generateTools1 doc = Inr tools"
  shows "getOperationInfo1 doc n =
           Inr (map_option (\<lambda>(pt, m, op). (m, pt, op)) (find (carries1 n) (all_operations doc)))"
proof -
  from assms have t: "truthy doc" by (auto simp: generateTools1_def split: if_splits)
  from assms t obtain ps where ps: "entries (field doc ''paths'') = Inr ps"
    by (cases "entries (field doc ''paths'')") (auto simp: generateTools1_def)
  with assms t obtain r where l: "paths_loop1 doc ps ([], []) = Inr r"
    by (cases "paths_loop1 doc ps ([], [])") (auto simp: generateTools1_def)
  from find_path1_find [OF paths_loop1_entries [OF l], of n] t ps show ?thesis
    by (simp add: getOperationInfo1_def all_operations_def del: field.simps)
qed

lemma getOperationInfo2_find:
  assumes "generateTools2 upper is3 stack doc = Inr tools"
  shows "getOperationInfo2 upper doc n =
           Inr (map_option (\<lambda>(pt, m, op). (m, pt, with_operationId op (JStr n)))
                  (find (carries2 upper n) (all_operations doc)))"
proof -
  from assms have t: "truthy doc" by (auto simp: generateTools2_def split: if_splits)
  from assms t obtain ps where ps: "entries (field doc ''paths'') = Inr ps"
    by (cases "entries (field doc ''paths'')") (auto simp: generateTools2_def)
  with assms t obtain r where l: "paths_loop2 upper is3 stack doc ps ([], []) = Inr r"
    by (cases "paths_loop2 upper is3 stack doc ps ([], [])") (auto simp: generateTools2_def)
  from find_path2_find [OF paths_loop2_entries [OF l], of upper n] t ps show ?thesis
    by (simp add: getOperationInfo2_def all_operations_def del: field.simps)
qed

lemma compiled_tool1:
  assumes g: "generateTools1 doc = Inr tools"
    and c: "find (compiles1 doc n) (all_operations doc) = Some c"
  shows "\<exists>t. t \<in> set tools \<and> tool_name t = n"
proof -
  from c have "compiles1 doc n c" by (auto simp: find_Some_iff)
  from first_wins1_nonempty [OF this] c have "first_wins1 doc n (all_operations doc) \<noteq> []"
    by (cases c) (simp add: first_wins1_def)
  with generateTools1_first [OF g] have "filter (\<lambda>t. tool_name t = n) tools \<noteq> []" by simp
  then show ?thesis by (auto simp: filter_empty_conv)
qed

lemma compiled_tool2:
  assumes g: "generateTools2 upper is3 stack doc = Inr tools"
    and c: "find (compiles2 upper is3 stack doc n) (all_operations doc) = Some c"
  shows "\<exists>t. t \<in> set tools \<and> tool_name t = n"
proof -
  from c have "compiles2 upper is3 stack doc n c" by (auto simp: find_Some_iff)
  from first_wins2_nonempty [OF this] c have "first_wins2 upper is3 stack doc n (all_operations doc) \<noteq> []"
    by (cases c) (simp add: first_wins2_def)
  with generateTools2_first [OF g] have "filter (\<lambda>t. tool_name t = n) tools \<noteq> []" by simp
  then show ?thesis by (auto simp: filter_empty_conv)
qed

lemma roundtrip:
  assumes look: "getOperationInfo operationId = Inr (Some (method, ''/x/{id}'', operation))"
    and get: "toLowerCase method = ''get''"
  shows "handleOpenAPITool getOperationInfo operationId
          (JObj [(''id'', JStr ''42''), (''verbose'', JStr ''true'')])
        = Inr (ClientGet ''/x/42'' (JObj [(''verbose'', JStr ''true'')]))"
proof -
  have p: "placeholders ''/x/{id}'' = [''{id}'']" by code_simp
  have s: "substitute [''{id}''] (JObj [(''id'', JStr ''42''), (''verbose'', JStr ''true'')]) (''/x/{id}'', [])
            = Inr (''/x/42'', [''id''])"
    by code_simp
  have q: "queryStep [''id''] (''verbose'', JStr ''true'') (queryStep [''id''] (''id'', JStr ''42'') [])
            = [(''verbose'', JStr ''true'')]"
    by code_simp
  show ?thesis
    using get look by (simp add: handleOpenAPITool_def p s q sendRequest_def del: substitute.simps)
qed

lemma no_placeholder_left: "placeholders ''/x/42'' = []"
  by code_simp


text \<open>
  Claim C1, as the code has it. A tool whose operation is the first operation of the document
  that carries its name, with method GET (in any case) and path \<^verbatim>\<open>/x/{id}\<close>, is dispatched
  with the arguments \<^verbatim>\<open>{id: "42", verbose: "true"}\<close> as the call
  \<^verbatim>\<open>get("/x/42", {params: {verbose: "true"}})\<close>, and no placeholder is left in the URL; so
  for both parsers. For every operation the index finds and every argument object: the query
  parameters of the call are the arguments but \<^verbatim>\<open>body\<close>, the keys that start with an underscore
  and the keys of the substituted placeholders; the value of \<^verbatim>\<open>body\<close> is the payload of a
  POST, PUT or PATCH call, and a GET or DELETE call has no payload. The dispatcher makes the
  call whenever the method is one of these five and every placeholder of the path can be
  dealt with.
\<close>

theorem dispatch_roundtrip:
  "(generateTools1 doc = Inr tools
      \<and> find (compiles1 doc n) (all_operations doc) = Some (path, method, operation)
      \<and> find (carries1 n) (all_operations doc) = Some (path, method, operation)
      \<and> toLowerCase method = ''get'' \<and> path = ''/x/{id}''
      \<longrightarrow> (\<exists>t. t \<in> set tools \<and> tool_name t = n)
          \<and> handleOpenAPITool (getOperationInfo1 doc) n
               (JObj [(''id'', JStr ''42''), (''verbose'', JStr ''true'')])
             = Inr (ClientGet ''/x/42'' (JObj [(''verbose'', JStr ''true'')]))
          \<and> placeholders ''/x/42'' = [])
   \<and> (generateTools2 upper is3 stack doc = Inr tools
      \<and> find (compiles2 upper is3 stack doc n) (all_operations doc) = Some (path, method, operation)
      \<and> find (carries2 upper n) (all_operations doc) = Some (path, method, operation)
      \<and> toLowerCase method = ''get'' \<and> path = ''/x/{id}''
      \<longrightarrow> (\<exists>t. t \<in> set tools \<and> tool_name t = n)
          \<and> handleOpenAPITool (getOperationInfo2 upper doc) n
               (JObj [(''id'', JStr ''42''), (''verbose'', JStr ''true'')])
             = Inr (ClientGet ''/x/42'' (JObj [(''verbose'', JStr ''true'')]))
          \<and> placeholders ''/x/42'' = [])
   \<and> (getOperationInfo operationId = Inr (Some (method, path, operation))
      \<and> distinct (map fst ps)
      \<and> handleOpenAPITool getOperationInfo operationId (JObj ps) = Inr call
      \<longrightarrow> (\<forall>k. field (call_params call) k =
             (if k = ''body'' \<or> startsWith k ''_''
                 \<or> (k \<in> paramNameOf ` set (placeholders path) \<and> field (JObj ps) k \<noteq> JUndefined)
              then JUndefined else field (JObj ps) k))
          \<and> call_data call =
               (if toLowerCase method = ''post'' \<or> toLowerCase method = ''put'' \<or> toLowerCase method = ''patch''
                then Some (field (JObj ps) ''body'') else None))
   \<and> (getOperationInfo operationId = Inr (Some (method, path, operation))
      \<and> supported method
      \<and> (\<forall>m\<in>set (placeholders path). fillable ps (paramNameOf m))
      \<longrightarrow> (\<exists>call. handleOpenAPITool getOperationInfo operationId (JObj ps) = Inr call))"
proof (intro conjI impI)
  assume a: "generateTools1 doc = Inr tools
      \<and> find (compiles1 doc n) (all_operations doc) = Some (path, method, operation)
      \<and> find (carries1 n) (all_operations doc) = Some (path, method, operation)
      \<and> toLowerCase method = ''get'' \<and> path = ''/x/{id}''"
  then have g: "generateTools1 doc = Inr tools"
    and c: "find (compiles1 doc n) (all_operations doc) = Some (path, method, operation)"
    and f: "find (carries1 n) (all_operations doc) = Some (path, method, operation)"
    and m: "toLowerCase method = ''get''" and p: "path = ''/x/{id}''" by blast+
  from compiled_tool1 [OF g c] show "\<exists>t. t \<in> set tools \<and> tool_name t = n" .
  from getOperationInfo1_find [OF g, of n] f p
  have look: "getOperationInfo1 doc n = Inr (Some (method, ''/x/{id}'', operation))" by simp
  from roundtrip [where getOperationInfo = "getOperationInfo1 doc" and operationId = n, OF look m]
  show "handleOpenAPITool (getOperationInfo1 doc) n
               (JObj [(''id'', JStr ''42''), (''verbose'', JStr ''true'')])
             = Inr (ClientGet ''/x/42'' (JObj [(''verbose'', JStr ''true'')]))" .
  show "placeholders ''/x/42'' = []" by (rule no_placeholder_left)
next
  assume a: "generateTools2 upper is3 stack doc = Inr tools
      \<and> find (compiles2 upper is3 stack doc n) (all_operations doc) = Some (path, method, operation)
      \<and> find (carries2 upper n) (all_operations doc) = Some (path, method, operation)
      \<and> toLowerCase method = ''get'' \<and> path = ''/x/{id}''"
  then have g: "generateTools2 upper is3 stack doc = Inr tools"
    and c: "find (compiles2 upper is3 stack doc n) (all_operations doc) = Some (path, method, operation)"
    and f: "find (carries2 upper n) (all_operations doc) = Some (path, method, operation)"
    and m: "toLowerCase method = ''get''" and p: "path = ''/x/{id}''" by blast+
  from compiled_tool2 [OF g c] show "\<exists>t. t \<in> set tools \<and> tool_name t = n" .
  from getOperationInfo2_find [OF g, of n] f p
  have look: "getOperationInfo2 upper doc n
                = Inr (Some (method, ''/x/{id}'', with_operationId operation (JStr n)))" by simp
  from roundtrip [where getOperationInfo = "getOperationInfo2 upper doc" and operationId = n, OF look m]
  show "handleOpenAPITool (getOperationInfo2 upper doc) n
               (JObj [(''id'', JStr ''42''), (''verbose'', JStr ''true'')])
             = Inr (ClientGet ''/x/42'' (JObj [(''verbose'', JStr ''true'')]))" .
  show "placeholders ''/x/42'' = []" by (rule no_placeholder_left)
next
  assume b: "getOperationInfo operationId = Inr (Some (method, path, operation))
      \<and> distinct (map fst ps)
      \<and> handleOpenAPITool getOperationInfo operationId (JObj ps) = Inr call"
  then have look: "getOperationInfo operationId = Inr (Some (method, path, operation))"
    and d: "distinct (map fst ps)"
    and res: "handleOpenAPITool getOperationInfo operationId (JObj ps) = Inr call" by blast+
  from handle_parts [where getOperationInfo = getOperationInfo and operationId = operationId, OF look res]
  show "call_data call =
               (if toLowerCase method = ''post'' \<or> toLowerCase method = ''put'' \<or> toLowerCase method = ''patch''
                then Some (field (JObj ps) ''body'') else None)"
    by blast
  show "\<forall>k. field (call_params call) k =
             (if k = ''body'' \<or> startsWith k ''_''
                 \<or> (k \<in> paramNameOf ` set (placeholders path) \<and> field (JObj ps) k \<noteq> JUndefined)
              then JUndefined else field (JObj ps) k)"
    using query_parameters [where getOperationInfo = getOperationInfo and operationId = operationId,
        OF look d res]
    by blast
next
  assume c: "getOperationInfo operationId = Inr (Some (method, path, operation))
      \<and> supported method
      \<and> (\<forall>m\<in>set (placeholders path). fillable ps (paramNameOf m))"
  then have look: "getOperationInfo operationId = Inr (Some (method, path, operation))"
    and sup: "supported method"
    and fill: "\<forall>m\<in>set (placeholders path). fillable ps (paramNameOf m)" by blast+
  from dispatch_succeeds [where getOperationInfo = getOperationInfo and operationId = operationId,
      OF look sup fill]
  show "\<exists>call. handleOpenAPITool getOperationInfo operationId (JObj ps) = Inr call" .
qed

text \<open>
  The round trip on a document with the one operation \<^verbatim>\<open>GET /x/{id}\<close>, for both parsers, and a
  POST call with its payload.
\<close>

theorem dispatch_roundtrip_witness:
  "generateTools1 doc_x = Inr [the_getX]
   \<and> handleOpenAPITool (getOperationInfo1 doc_x) ''getX''
         (JObj [(''id'', JStr ''42''), (''verbose'', JStr ''true'')])
       = Inr (ClientGet ''/x/42'' (JObj [(''verbose'', JStr ''true'')]))
   \<and> generateTools2 upper_ascii True 3 doc_x = Inr [the_getX]
   \<and> handleOpenAPITool (getOperationInfo2 upper_ascii doc_x) ''getX''
         (JObj [(''id'', JStr ''42''), (''verbose'', JStr ''true'')])
       = Inr (ClientGet ''/x/42'' (JObj [(''verbose'', JStr ''true'')]))
   \<and> placeholders ''/x/42'' = []
   \<and> handleOpenAPITool (getOperationInfo1 doc_post) ''postX''
         (JObj [(''id'', JStr ''42''), (''body'', JObj [(''a'', JNum 1)]), (''verbose'', JStr ''true'')])
       = Inr (ClientPost ''/x/42'' (JObj [(''a'', JNum 1)]) (JObj [(''verbose'', JStr ''true'')]))
   \<and> call_data (ClientPost ''/x/42'' (JObj [(''a'', JNum 1)]) (JObj [(''verbose'', JStr ''true'')]))
       = Some (JObj [(''a'', JNum 1)])
   \<and> field (call_params (ClientPost ''/x/42'' (JObj [(''a'', JNum 1)]) (JObj [(''verbose'', JStr ''true'')]))) ''id''
       = JUndefined"
proof -
  let ?op = "JObj [(''operationId'', JStr ''getX'')]"
  let ?args = "[(''id'', JStr ''42''), (''body'', JObj [(''a'', JNum 1)]), (''verbose'', JStr ''true'')]"
  let ?call = "ClientPost ''/x/42'' (JObj [(''a'', JNum 1)]) (JObj [(''verbose'', JStr ''true'')])"
  have g1: "generateTools1 doc_x = Inr [the_getX]" by code_simp
  have g2: "generateTools2 upper_ascii True 3 doc_x = Inr [the_getX]" by code_simp
  have c1: "find (compiles1 doc_x ''getX'') (all_operations doc_x) = Some (''/x/{id}'', ''get'', ?op)" by code_simp
  have c2: "find (compiles2 upper_ascii True 3 doc_x ''getX'') (all_operations doc_x) = Some (''/x/{id}'', ''get'', ?op)"
    by code_simp
  have f1: "find (carries1 ''getX'') (all_operations doc_x) = Some (''/x/{id}'', ''get'', ?op)" by code_simp
  have f2: "find (carries2 upper_ascii ''getX'') (all_operations doc_x) = Some (''/x/{id}'', ''get'', ?op)" by code_simp
  have low: "toLowerCase ''get'' = ''get''" by code_simp
  note t = dispatch_roundtrip [of doc_x "[the_getX]" "''getX''" "''/x/{id}''" "''get''" ?op
      upper_ascii True 3]
  from t [THEN conjunct1] g1 c1 f1 low
  have r1: "handleOpenAPITool (getOperationInfo1 doc_x) ''getX''
         (JObj [(''id'', JStr ''42''), (''verbose'', JStr ''true'')])
       = Inr (ClientGet ''/x/42'' (JObj [(''verbose'', JStr ''true'')]))"
    and np: "placeholders ''/x/42'' = []" by blast+
  from t [THEN conjunct2, THEN conjunct1] g2 c2 f2 low
  have r2: "handleOpenAPITool (getOperationInfo2 upper_ascii doc_x) ''getX''
         (JObj [(''id'', JStr ''42''), (''verbose'', JStr ''true'')])
       = Inr (ClientGet ''/x/42'' (JObj [(''verbose'', JStr ''true'')]))" by blast
  have look: "getOperationInfo1 doc_post ''postX''
      = Inr (Some (''post'', ''/x/{id}'', JObj [(''operationId'', JStr ''postX'')]))" by code_simp
  have d: "distinct (map fst ?args)" by simp
  have sup: "supported ''post''" by code_simp
  have fill: "\<forall>m\<in>set (placeholders ''/x/{id}''). fillable ?args (paramNameOf m)" by code_simp
  have run: "handleOpenAPITool (getOperationInfo1 doc_post) ''postX'' (JObj ?args) = Inr ?call" by code_simp
  note u = dispatch_roundtrip [of _ _ _ "''/x/{id}''" "''post''" "JObj [(''operationId'', JStr ''postX'')]"
      _ _ _ "getOperationInfo1 doc_post" "''postX''" ?args ?call]
  from u [THEN conjunct2, THEN conjunct2, THEN conjunct2] look sup fill
  have "\<exists>call. handleOpenAPITool (getOperationInfo1 doc_post) ''postX'' (JObj ?args) = Inr call" by blast
  from u [THEN conjunct2, THEN conjunct2, THEN conjunct1] look d run
  have q: "\<forall>k. field (call_params ?call) k =
             (if k = ''body'' \<or> startsWith k ''_''
                 \<or> (k \<in> paramNameOf ` set (placeholders ''/x/{id}'') \<and> field (JObj ?args) k \<noteq> JUndefined)
              then JUndefined else field (JObj ?args) k)"
    and pd: "call_data ?call =
               (if toLowerCase ''post'' = ''post'' \<or> toLowerCase ''post'' = ''put'' \<or> toLowerCase ''post'' = ''patch''
                then Some (field (JObj ?args) ''body'') else None)" by blast+
  have lp: "toLowerCase ''post'' = ''post''" by code_simp
  from pd lp have pd': "call_data ?call = Some (JObj [(''a'', JNum 1)])" by simp
  have qi: "field (call_params ?call) ''id'' = JUndefined" by simp
  from g1 r1 g2 r2 np run pd' qi show ?thesis by (simp only: simp_thms)
qed

text \<open>
  The claim as stated fails in two ways. A GET call sends no payload, whatever the argument
  \<^verbatim>\<open>body\<close> holds. And the index does not ask whether an operation was compiled: where the
  first operation \<^verbatim>\<open>foo\<close> of the document did not compile, the tool \<^verbatim>\<open>foo\<close> is the one of the
  second, \<^verbatim>\<open>GET /x/{id}\<close>, and its call goes to the path of the first, with both arguments as
  query parameters.
\<close>

theorem dispatch_body_counterexample:
  "map_sum id call_data
     (handleOpenAPITool (getOperationInfo1 doc_x) ''getX''
        (JObj [(''id'', JStr ''42''), (''body'', JStr ''payload'')]))
   = Inr None
   \<and> generateTools2 upper_ascii False 3 doc_dup_get = Inr [the_second]
   \<and> find (compiles2 upper_ascii False 3 doc_dup_get ''foo'') (all_operations doc_dup_get)
       = Some (''/x/{id}'', ''get'', op_foo_second)
   \<and> handleOpenAPITool (getOperationInfo2 upper_ascii doc_dup_get) ''foo''
        (JObj [(''id'', JStr ''42''), (''verbose'', JStr ''true'')])
       = Inr (ClientGet ''/a'' (JObj [(''id'', JStr ''42''), (''verbose'', JStr ''true'')]))"
  by code_simp




section \<open>Determinism of the resolvers\<close>

text \<open>
  The second resolver has no state of its own: its outcome depends on the version flag, the
  document, the fragment, and on the call stack that is left. When the stack suffices, a
  deeper one gives the same outcome.
\<close>

lemma sequence_stable:
  assumes "sequence_sum (map F xs) \<noteq> Inl RangeError"
    and "\<And>x. x \<in> set xs \<Longrightarrow> F x \<noteq> Inl RangeError \<Longrightarrow> G x = F x"
  shows "sequence_sum (map G xs) = sequence_sum (map F xs)"
  using assms
proof (induction xs)
  case Nil
  then show ?case by simp
next
  case (Cons x xs)
  from Cons.prems(1) have fx: "F x \<noteq> Inl RangeError" by (auto split: sum.splits)
  with Cons.prems(2) have gx: "G x = F x" by simp
  show ?case
  proof (cases "F x")
    case (Inl e)
    with gx show ?thesis by simp
  next
    case (Inr v)
    with Cons.prems(1) have "sequence_sum (map F xs) \<noteq> Inl RangeError" by (auto split: sum.splits)
    with Cons.IH Cons.prems(2) have "sequence_sum (map G xs) = sequence_sum (map F xs)" by simp
    with gx Inr show ?thesis by simp
  qed
qed

lemma keyed_stable:
  "(case f of Inl e \<Rightarrow> Inl e | Inr r \<Rightarrow> Inr (key, r)) \<noteq> Inl RangeError \<Longrightarrow> f \<noteq> Inl RangeError"
  by (auto split: sum.splits)

lemma resolveSchema2_Suc:
  "resolveSchema2 is3 n doc s \<noteq> Inl RangeError \<Longrightarrow>
   resolveSchema2 is3 (Suc n) doc s = resolveSchema2 is3 n doc s"
proof (induction n arbitrary: s)
  case 0
  then show ?case by simp
next
  case (Suc n)
  note ih = Suc.IH
  note p = Suc.prems
  let ?R = "\<lambda>k. resolveSchema2 is3 k doc"
  show ?case
  proof (cases "\<not> truthy s")
    case True
    then show ?thesis by simp
  next
    case t: False
    show ?thesis
    proof (cases "truthy (field s ''$ref'')")
      case True
      show ?thesis
      proof (cases "field s ''$ref''")
        case (JStr ref)
        show ?thesis
        proof (cases "resolveRef2 is3 doc ref")
          case (Inl e)
          with t True JStr show ?thesis by (simp del: field.simps)
        next
          case (Inr resolved)
          with t True JStr p have "?R n (fragment_of resolved) \<noteq> Inl RangeError" by (simp del: field.simps)
          from ih [OF this] t True JStr Inr show ?thesis by (simp del: field.simps)
        qed
      qed (use t True in \<open>simp_all del: field.simps\<close>)
    next
      case nr: False
      show ?thesis
      proof (cases "truthy (field s ''allOf'')")
        case True
        show ?thesis
        proof (cases "field s ''allOf''")
          case (JArr xs)
          with t nr True p have "sequence_sum (map (?R n) xs) \<noteq> Inl RangeError"
            by (auto simp del: field.simps split: sum.splits)
          from sequence_stable [of "?R n" xs "?R (Suc n)", OF this] ih
          have "sequence_sum (map (?R (Suc n)) xs) = sequence_sum (map (?R n) xs)" by blast
          with t nr True JArr show ?thesis by (simp del: field.simps resolveSchema2.simps add: resolveSchema2.simps(2) [of is3 "Suc n"] resolveSchema2.simps(2) [of is3 n])
        qed (use t nr True in \<open>simp_all del: field.simps\<close>)
      next
        case na: False
        show ?thesis
        proof (cases "truthy (field s ''oneOf'') \<or> truthy (field s ''anyOf'')")
          case True
          let ?f = "first_of (if truthy (field s ''oneOf'') then field s ''oneOf'' else field s ''anyOf'')"
          from t nr na True p have "?R n ?f \<noteq> Inl RangeError"
            by (simp del: field.simps split: if_splits)
          from ih [OF this] t nr na True show ?thesis
            by (simp del: field.simps resolveSchema2.simps add: resolveSchema2.simps(2) [of is3 "Suc n"] resolveSchema2.simps(2) [of is3 n])
        next
          case no: False
          show ?thesis
          proof (cases s)
            case (JObj ps)
            let ?K = "\<lambda>k. (\<lambda>(key, val). case ?R k val of Inl e \<Rightarrow> Inl e | Inr r \<Rightarrow> Inr (key, r))"
            let ?P = "\<lambda>k. (if truthy (field s ''properties'')
                    then (case sequence_sum (map (?K k) (spread (field s ''properties''))) of
                            Inl e \<Rightarrow> Inl e
                          | Inr es \<Rightarrow> Inr (obj_set ps ''properties'' (JObj es)))
                    else Inr ps)"
            let ?I = "\<lambda>k ps'. if truthy (field s ''items'')
                  then (case ?R k (field s ''items'') of
                          Inl e \<Rightarrow> Inl e
                        | Inr r \<Rightarrow> Inr (JObj (obj_set ps' ''items'' r)))
                  else Inr (JObj ps')"
            have u: "\<And>k. ?R (Suc k) s = (case ?P k of Inl e \<Rightarrow> Inl e | Inr ps' \<Rightarrow> ?I k ps')"
              using t nr na no unfolding JObj by (simp del: field.simps)
            from p u [of n] have pn: "?P n \<noteq> Inl RangeError" by (auto split: sum.splits)
            have pe: "?P (Suc n) = ?P n"
            proof (cases "truthy (field s ''properties'')")
              case True
              with pn have "sequence_sum (map (?K n) (spread (field s ''properties''))) \<noteq> Inl RangeError"
                by (auto split: sum.splits)
              moreover have "\<And>x :: string \<times> json. ?K n x \<noteq> Inl RangeError \<Longrightarrow> ?K (Suc n) x = ?K n x"
              proof -
                fix x :: "string \<times> json"
                obtain key val where x: "x = (key, val)" by (cases x)
                assume "?K n x \<noteq> Inl RangeError"
                with x have "?R n val \<noteq> Inl RangeError" by (auto split: sum.splits)
                from ih [OF this] x show "?K (Suc n) x = ?K n x" by (simp del: resolveSchema2.simps)
              qed
              ultimately have "sequence_sum (map (?K (Suc n)) (spread (field s ''properties'')))
                    = sequence_sum (map (?K n) (spread (field s ''properties'')))"
                by (intro sequence_stable)
              with True show ?thesis by (simp del: field.simps resolveSchema2.simps)
            qed simp
            have ie: "\<And>ps'. ?P n = Inr ps' \<Longrightarrow> ?I (Suc n) ps' = ?I n ps'"
            proof -
              fix ps' assume a: "?P n = Inr ps'"
              show "?I (Suc n) ps' = ?I n ps'"
              proof (cases "truthy (field s ''items'')")
                case True
                with p u [of n] a have "?R n (field s ''items'') \<noteq> Inl RangeError"
                  by (auto split: sum.splits simp del: resolveSchema2.simps field.simps)
                from ih [OF this] True show ?thesis by (simp del: field.simps resolveSchema2.simps)
              qed simp
            qed
            show ?thesis
            proof (cases "?P n")
              case (Inl e)
              with pe u [of n] u [of "Suc n"] show ?thesis by (simp del: field.simps resolveSchema2.simps)
            next
              case (Inr ps')
              with pe ie [OF Inr] u [of n] u [of "Suc n"] show ?thesis
                by (simp del: field.simps resolveSchema2.simps)
            qed
          qed (use t nr na no in \<open>simp_all del: field.simps\<close>)
        qed
      qed
    qed
  qed
qed

lemma resolveSchema2_le:
  "n \<le> m \<Longrightarrow> resolveSchema2 is3 n doc s \<noteq> Inl RangeError \<Longrightarrow>
   resolveSchema2 is3 m doc s = resolveSchema2 is3 n doc s"
proof (induction m)
  case 0
  then show ?case by simp
next
  case (Suc m)
  show ?case
  proof (cases "n = Suc m")
    case True
    then show ?thesis by simp
  next
    case False
    with Suc.prems have "n \<le> m" by simp
    from Suc.IH [OF this Suc.prems(2)] have e: "resolveSchema2 is3 m doc s = resolveSchema2 is3 n doc s" .
    with Suc.prems(2) have "resolveSchema2 is3 m doc s \<noteq> Inl RangeError" by simp
    from resolveSchema2_Suc [OF this] e show ?thesis by simp
  qed
qed

lemma resolveSchema2_stack:
  assumes "resolveSchema2 is3 n doc s \<noteq> Inl RangeError" "resolveSchema2 is3 m doc s \<noteq> Inl RangeError"
  shows "resolveSchema2 is3 n doc s = resolveSchema2 is3 m doc s"
proof (cases "n \<le> m")
  case True
  from resolveSchema2_le [OF True assms(1)] show ?thesis by simp
next
  case False
  then have "m \<le> n" by simp
  from resolveSchema2_le [OF this assms(2)] show ?thesis by simp
qed

text \<open>
  The first resolver changes its set of visited references in place. Every call that returns
  has restored the set, so the resolver with the set as state computes \<open>resolveSchema1\<close>, for
  every bound on the depth from some bound on.
\<close>

lemma bound_SucI: "(\<And>d. d0 \<le> d \<Longrightarrow> P (Suc d)) \<Longrightarrow> \<exists>d1. \<forall>d\<ge>d1. P d"
proof -
  assume a: "\<And>d. d0 \<le> d \<Longrightarrow> P (Suc d)"
  have "\<forall>d\<ge>Suc d0. P d"
  proof (intro allI impI)
    fix d assume "Suc d0 \<le> d"
    then obtain d' where "d = Suc d'" "d0 \<le> d'" by (cases d) auto
    with a show "P d" by simp
  qed
  then show ?thesis by blast
qed

lemma common_bound:
  "(\<And>x. x \<in> set xs \<Longrightarrow> \<exists>d0::nat. \<forall>d\<ge>d0. P d x) \<Longrightarrow> \<exists>d0. \<forall>d\<ge>d0. \<forall>x\<in>set xs. P d x"
proof (induction xs)
  case Nil
  then show ?case by simp
next
  case (Cons a xs)
  from Cons.prems [of a] obtain d1 where d1: "\<forall>d\<ge>d1. P d a" by auto
  from Cons.IH Cons.prems obtain d2 where d2: "\<forall>d\<ge>d2. \<forall>x\<in>set xs. P d x" by auto
  have "\<forall>d\<ge>max d1 d2. \<forall>x\<in>set (a # xs). P d x" using d1 d2 by auto
  then show ?case by blast
qed

lemma map_st_returning:
  "(\<And>x. x \<in> set xs \<Longrightarrow> F x V = Some (returning (f x) V)) \<Longrightarrow>
   map_st F xs V = Some (returning (sequence_sum (map f xs)) V)"
proof (induction xs)
  case Nil
  then show ?case by (simp add: returning_def)
next
  case (Cons a xs)
  from Cons.prems have a: "F a V = Some (returning (f a) V)" by simp
  from Cons.IH Cons.prems have r: "map_st F xs V = Some (returning (sequence_sum (map f xs)) V)" by simp
  show ?case
  proof (cases "f a")
    case (Inl e)
    with a show ?thesis by (simp add: returning_def)
  next
    case (Inr v)
    with a r show ?thesis by (cases "sequence_sum (map f xs)") (simp_all add: returning_def)
  qed
qed

lemma resolveSchema1_st_agrees:
  "\<exists>d0. \<forall>d\<ge>d0. resolveSchema1_st d doc schema visited
                     = Some (returning (resolveSchema1 doc schema visited) visited)"
proof (induction doc schema visited rule: resolveSchema1.induct)
  case (1 doc schema visited)
  let ?A = "\<lambda>d s V. resolveSchema1_st d doc s V = Some (returning (resolveSchema1 doc s V) V)"
  note u = resolveSchema1.simps [of doc schema visited]
  show ?case
  proof (cases "\<not> truthy schema")
    case True
    then have "\<And>d. 0 \<le> d \<Longrightarrow> ?A (Suc d) schema visited" by (simp add: u returning_def)
    then show ?thesis by (rule bound_SucI)
  next
    case t: False
    show ?thesis
    proof (cases "truthy (field schema ''$ref'')")
      case r: True
      show ?thesis
      proof (cases "\<exists>ref. field schema ''$ref'' = JStr ref")
        case False
        with t r have "\<And>d. 0 \<le> d \<Longrightarrow> ?A (Suc d) schema visited"
          by (cases "field schema ''$ref''") (simp_all add: u returning_def del: field.simps)
        then show ?thesis by (rule bound_SucI)
      next
        case True
        then obtain ref where ref: "field schema ''$ref'' = JStr ref" by blast
        show ?thesis
        proof (cases "ref \<in> set visited")
          case True
          with t r ref have "\<And>d. 0 \<le> d \<Longrightarrow> ?A (Suc d) schema visited"
            by (simp add: u returning_def del: field.simps)
          then show ?thesis by (rule bound_SucI)
        next
          case nin: False
          show ?thesis
          proof (cases "resolveRef1 doc ref")
            case (Inl e)
            with t r ref nin have "\<And>d. 0 \<le> d \<Longrightarrow> ?A (Suc d) schema visited"
              by (simp add: u returning_def del: field.simps)
            then show ?thesis by (rule bound_SucI)
          next
            case (Inr resolved)
            from "1.IH"(1) [OF _ r ref nin Inr] t obtain d0 where
              b: "\<forall>d\<ge>d0. ?A d (fragment_of resolved) (ref # visited)" by auto
            have "\<And>d. d0 \<le> d \<Longrightarrow> ?A (Suc d) schema visited"
            proof -
              fix d assume "d0 \<le> d"
              with b have "?A d (fragment_of resolved) (ref # visited)" by simp
              with t r ref nin Inr show "?A (Suc d) schema visited"
                by (cases "resolveSchema1 doc (fragment_of resolved) (ref # visited)")
                   (simp_all add: u returning_def del: field.simps)
            qed
            then show ?thesis by (rule bound_SucI)
          qed
        qed
      qed
    next
      case nr: False
      show ?thesis
      proof (cases "truthy (field schema ''allOf'')")
        case a: True
        show ?thesis
        proof (cases "\<exists>xs. field schema ''allOf'' = JArr xs")
          case False
          with t nr a have "\<And>d. 0 \<le> d \<Longrightarrow> ?A (Suc d) schema visited"
            by (cases "field schema ''allOf''") (simp_all add: u returning_def del: field.simps)
          then show ?thesis by (rule bound_SucI)
        next
          case True
          then obtain xs where xs: "field schema ''allOf'' = JArr xs" by blast
          have "\<And>x. x \<in> set xs \<Longrightarrow> \<exists>d0. \<forall>d\<ge>d0. ?A d x visited"
            using "1.IH"(2) [OF _ nr a xs] t by simp
          from common_bound [of xs "\<lambda>d x. ?A d x visited", OF this] obtain d0 where
            b: "\<forall>d\<ge>d0. \<forall>x\<in>set xs. ?A d x visited" by blast
          have "\<And>d. d0 \<le> d \<Longrightarrow> ?A (Suc d) schema visited"
          proof -
            fix d assume "d0 \<le> d"
            with b have "\<And>x. x \<in> set xs \<Longrightarrow> ?A d x visited" by simp
            from map_st_returning [of xs "\<lambda>s v. resolveSchema1_st d doc s v" visited
                                      "\<lambda>s. resolveSchema1 doc s visited", OF this]
            have m: "map_st (\<lambda>s v. resolveSchema1_st d doc s v) xs visited
                     = Some (returning (sequence_sum (map (\<lambda>s. resolveSchema1 doc s visited) xs)) visited)"
              by simp
            show "?A (Suc d) schema visited"
              using t nr a xs m
              by (cases "sequence_sum (map (\<lambda>s. resolveSchema1 doc s visited) xs)")
                 (simp_all add: u returning_def del: field.simps split: sum.splits)
          qed
          then show ?thesis by (rule bound_SucI)
        qed
      next
        case na: False
        show ?thesis
        proof (cases "truthy (field schema ''oneOf'') \<or> truthy (field schema ''anyOf'')")
          case o: True
          let ?f = "first_of (if truthy (field schema ''oneOf'') then field schema ''oneOf''
                              else field schema ''anyOf'')"
          from "1.IH"(3) [OF _ nr na o] t obtain d0 where b: "\<forall>d\<ge>d0. ?A d ?f visited" by auto
          have "\<And>d. d0 \<le> d \<Longrightarrow> ?A (Suc d) schema visited"
          proof -
            fix d assume "d0 \<le> d"
            with b have "?A d ?f visited" by simp
            with t nr na o show "?A (Suc d) schema visited"
              by (simp add: u del: field.simps)
          qed
          then show ?thesis by (rule bound_SucI)
        next
          case no: False
          show ?thesis
          proof (cases "\<exists>ps. schema = JObj ps")
            case False
            with t nr na no have "\<And>d. 0 \<le> d \<Longrightarrow> ?A (Suc d) schema visited"
              by (cases schema) (simp_all add: resolveSchema1.simps returning_def del: field.simps)
            then show ?thesis by (rule bound_SucI)
          next
            case True
            then obtain ps where ps: "schema = JObj ps" by blast
            let ?props = "spread (field schema ''properties'')"
            let ?k = "\<lambda>(key, val). case resolveSchema1 doc val visited of
                                       Inl e \<Rightarrow> Inl e | Inr r \<Rightarrow> Inr (key, r)"
            let ?K = "\<lambda>d. (\<lambda>(key, val) v.
                              case resolveSchema1_st d doc val v of
                                None \<Rightarrow> None
                              | Some (Inl e) \<Rightarrow> Some (Inl e)
                              | Some (Inr (r, v')) \<Rightarrow> Some (Inr ((key, r), v')))"
            let ?P = "if truthy (field schema ''properties'')
                      then (case sequence_sum (map ?k ?props) of
                              Inl e \<Rightarrow> Inl e
                            | Inr es \<Rightarrow> Inr (obj_set ps ''properties'' (JObj es)))
                      else Inr ps"
            let ?PS = "\<lambda>d. if truthy (field schema ''properties'')
                      then (case map_st (?K d) ?props visited of
                              None \<Rightarrow> None
                            | Some (Inl e) \<Rightarrow> Some (Inl e)
                            | Some (Inr (es, visited')) \<Rightarrow>
                                Some (Inr (obj_set ps ''properties'' (JObj es), visited')))
                      else Some (Inr (ps, visited))"
            have "\<exists>d0. \<forall>d\<ge>d0. ?PS d = Some (returning ?P visited)"
            proof (cases "truthy (field schema ''properties'')")
              case False
              then show ?thesis by (simp add: returning_def)
            next
              case p: True
              have "\<And>x. x \<in> set ?props \<Longrightarrow> \<exists>d0. \<forall>d\<ge>d0. ?A d (snd x) visited"
              proof -
                fix x assume x: "x \<in> set ?props"
                obtain key val where kv: "(key, val) = x" by (cases x) auto
                from t have "\<not> \<not> truthy schema" by simp
                from "1.IH"(4) [OF this nr na no ps p x kv]
                have "\<exists>d0. \<forall>d\<ge>d0. ?A d val visited" .
                moreover from kv have "snd x = val" by auto
                ultimately show "\<exists>d0. \<forall>d\<ge>d0. ?A d (snd x) visited" by simp
              qed
              from common_bound [of ?props "\<lambda>d x. ?A d (snd x) visited", OF this] obtain d0 where
                b: "\<forall>d\<ge>d0. \<forall>x\<in>set ?props. ?A d (snd x) visited" by blast
              have "\<forall>d\<ge>d0. ?PS d = Some (returning ?P visited)"
              proof (intro allI impI)
                fix d assume "d0 \<le> d"
                with b have e: "\<And>x. x \<in> set ?props \<Longrightarrow> ?A d (snd x) visited" by simp
                have "\<And>x. x \<in> set ?props \<Longrightarrow> ?K d x visited = Some (returning (?k x) visited)"
                proof -
                  fix x assume "x \<in> set ?props"
                  from e [OF this] show "?K d x visited = Some (returning (?k x) visited)"
                    by (cases x; cases "resolveSchema1 doc (snd x) visited") (simp_all add: returning_def)
                qed
                from map_st_returning [of ?props "?K d" visited ?k, OF this]
                have "map_st (?K d) ?props visited = Some (returning (sequence_sum (map ?k ?props)) visited)" .
                with p show "?PS d = Some (returning ?P visited)"
                  by (cases "sequence_sum (map ?k ?props)") (simp_all add: returning_def del: field.simps)
              qed
              then show ?thesis by blast
            qed
            then obtain d1 where d1: "\<forall>d\<ge>d1. ?PS d = Some (returning ?P visited)" by blast
            have "\<exists>d2. \<forall>d\<ge>d2. truthy (field schema ''items'') \<longrightarrow> (\<forall>b. ?P = Inr b \<longrightarrow> ?A d (field schema ''items'') visited)"
            proof (cases "truthy (field schema ''items'') \<and> (\<exists>b. ?P = Inr b)")
              case False
              then show ?thesis by blast
            next
              case True
              then obtain b where i: "truthy (field schema ''items'')" and pb: "?P = Inr b" by blast
              from "1.IH"(5) [OF _ nr na no ps pb i] t show ?thesis by auto
            qed
            then obtain d2 where
              d2: "\<forall>d\<ge>d2. truthy (field schema ''items'') \<longrightarrow> (\<forall>b. ?P = Inr b \<longrightarrow> ?A d (field schema ''items'') visited)"
              by blast
            have us: "\<And>d. resolveSchema1_st (Suc d) doc schema visited =
                      (case ?PS d of
                         None \<Rightarrow> None
                       | Some (Inl e) \<Rightarrow> Some (Inl e)
                       | Some (Inr (ps', visited')) \<Rightarrow>
                           if truthy (field schema ''items'')
                           then (case resolveSchema1_st d doc (field schema ''items'') visited' of
                                   None \<Rightarrow> None
                                 | Some (Inl e) \<Rightarrow> Some (Inl e)
                                 | Some (Inr (r, visited'')) \<Rightarrow>
                                     Some (Inr (JObj (obj_set ps' ''items'' r), visited'')))
                           else Some (Inr (JObj ps', visited')))"
              using t nr na no unfolding ps by (simp del: field.simps)
            have up: "resolveSchema1 doc schema visited =
                      (case ?P of
                         Inl e \<Rightarrow> Inl e
                       | Inr ps' \<Rightarrow>
                           if truthy (field schema ''items'')
                           then (case resolveSchema1 doc (field schema ''items'') visited of
                                   Inl e \<Rightarrow> Inl e
                                 | Inr r \<Rightarrow> Inr (JObj (obj_set ps' ''items'' r)))
                           else Inr (JObj ps'))"
              using t nr na no unfolding ps
              by (subst resolveSchema1.simps) (simp del: field.simps)
            have "\<And>d. max d1 d2 \<le> d \<Longrightarrow> ?A (Suc d) schema visited"
            proof -
              fix d assume d: "max d1 d2 \<le> d"
              with d1 have e1: "?PS d = Some (returning ?P visited)" by simp
              show "?A (Suc d) schema visited"
              proof (cases ?P)
                case (Inl e)
                with e1 show ?thesis by (simp only: us up) (simp add: returning_def)
              next
                case (Inr b)
                show ?thesis
                proof (cases "truthy (field schema ''items'')")
                  case False
                  with e1 Inr show ?thesis by (simp only: us up) (simp add: returning_def)
                next
                  case True
                  with d2 d Inr have "?A d (field schema ''items'') visited" by simp
                  with e1 Inr True show ?thesis
                    by (simp only: us up)
                       (cases "resolveSchema1 doc (field schema ''items'') visited";
                        simp add: returning_def del: field.simps)
                qed
              qed
            qed
            then show ?thesis by (rule bound_SucI)
          qed
        qed
      qed
    qed
  qed
qed

lemma map_st_stable:
  assumes "map_st F xs V \<noteq> None"
    and "\<And>x v. F x v \<noteq> None \<Longrightarrow> G x v = F x v"
  shows "map_st G xs V = map_st F xs V"
  using assms(1)
proof (induction xs arbitrary: V)
  case Nil
  then show ?case by simp
next
  case (Cons x xs)
  from Cons.prems have fx: "F x V \<noteq> None" by (auto split: option.splits)
  with assms(2) have gx: "G x V = F x V" by simp
  from fx obtain a where a: "F x V = Some a" by auto
  show ?case
  proof (cases a)
    case (Inl e)
    with a gx show ?thesis by simp
  next
    case (Inr rv)
    obtain r V' where rv: "rv = (r, V')" by (cases rv)
    with Cons.prems a Inr have "map_st F xs V' \<noteq> None" by (auto split: option.splits)
    from Cons.IH [OF this] a gx Inr rv show ?thesis by simp
  qed
qed

lemma resolveSchema1_st_Suc:
  "resolveSchema1_st d doc s V \<noteq> None \<Longrightarrow>
   resolveSchema1_st (Suc d) doc s V = resolveSchema1_st d doc s V"
proof (induction d arbitrary: s V)
  case 0
  then show ?case by simp
next
  case (Suc d)
  note ih = Suc.IH
  note p = Suc.prems
  let ?R = "\<lambda>k. resolveSchema1_st k doc"
  note u = resolveSchema1_st.simps(2) [of d doc s V] resolveSchema1_st.simps(2) [of "Suc d" doc s V]
  show ?case
  proof (cases "\<not> truthy s")
    case True
    then show ?thesis by simp
  next
    case t: False
    show ?thesis
    proof (cases "truthy (field s ''$ref'')")
      case r: True
      show ?thesis
      proof (cases "\<exists>ref. field s ''$ref'' = JStr ref")
        case False
        with t r show ?thesis by (cases "field s ''$ref''") (simp_all del: field.simps)
      next
        case True
        then obtain ref where ref: "field s ''$ref'' = JStr ref" by blast
        show ?thesis
        proof (cases "ref \<in> set V")
          case True
          with t r ref show ?thesis by (simp del: field.simps)
        next
          case nin: False
          show ?thesis
          proof (cases "resolveRef1 doc ref")
            case (Inl e)
            with t r ref nin show ?thesis by (simp del: field.simps)
          next
            case (Inr resolved)
            with t r ref nin p have "?R d (fragment_of resolved) (ref # V) \<noteq> None"
              by (auto simp del: field.simps split: option.splits)
            from ih [OF this] t r ref nin Inr show ?thesis
              by (simp only: u) (simp del: field.simps resolveSchema1_st.simps)
          qed
        qed
      qed
    next
      case nr: False
      show ?thesis
      proof (cases "truthy (field s ''allOf'')")
        case a: True
        show ?thesis
        proof (cases "\<exists>xs. field s ''allOf'' = JArr xs")
          case False
          with t nr a show ?thesis by (cases "field s ''allOf''") (simp_all del: field.simps)
        next
          case True
          then obtain xs where xs: "field s ''allOf'' = JArr xs" by blast
          with t nr a p have "map_st (\<lambda>s v. ?R d s v) xs V \<noteq> None"
            by (auto simp del: field.simps split: option.splits)
          from map_st_stable [of "\<lambda>s v. ?R d s v" xs V "\<lambda>s v. ?R (Suc d) s v", OF this] ih
          have "map_st (\<lambda>s v. ?R (Suc d) s v) xs V = map_st (\<lambda>s v. ?R d s v) xs V" by blast
          with t nr a xs show ?thesis
            by (simp only: u) (simp del: field.simps resolveSchema1_st.simps)
        qed
      next
        case na: False
        show ?thesis
        proof (cases "truthy (field s ''oneOf'') \<or> truthy (field s ''anyOf'')")
          case o: True
          let ?f = "first_of (if truthy (field s ''oneOf'') then field s ''oneOf'' else field s ''anyOf'')"
          from t nr na o p have "?R d ?f V \<noteq> None" by (simp del: field.simps split: if_splits)
          from ih [OF this] t nr na o show ?thesis
            by (simp only: u) (simp del: field.simps resolveSchema1_st.simps)
        next
          case no: False
          show ?thesis
          proof (cases "\<exists>ps. s = JObj ps")
            case False
            with t nr na no show ?thesis by (cases s) (simp_all del: field.simps)
          next
            case True
            then obtain ps where ps: "s = JObj ps" by blast
            let ?props = "spread (field s ''properties'')"
            let ?K = "\<lambda>d. (\<lambda>(key, val) v.
                              case resolveSchema1_st d doc val v of
                                None \<Rightarrow> None
                              | Some (Inl e) \<Rightarrow> Some (Inl e)
                              | Some (Inr (r, v')) \<Rightarrow> Some (Inr ((key, r), v')))"
            let ?PS = "\<lambda>d. if truthy (field s ''properties'')
                      then (case map_st (?K d) ?props V of
                              None \<Rightarrow> None
                            | Some (Inl e) \<Rightarrow> Some (Inl e)
                            | Some (Inr (es, visited')) \<Rightarrow>
                                Some (Inr (obj_set ps ''properties'' (JObj es), visited')))
                      else Some (Inr (ps, V))"
            let ?I = "\<lambda>d ps' visited'. if truthy (field s ''items'')
                           then (case resolveSchema1_st d doc (field s ''items'') visited' of
                                   None \<Rightarrow> None
                                 | Some (Inl e) \<Rightarrow> Some (Inl e)
                                 | Some (Inr (r, visited'')) \<Rightarrow>
                                     Some (Inr (JObj (obj_set ps' ''items'' r), visited'')))
                           else Some (Inr (JObj ps', visited'))"
            have us: "\<And>d. resolveSchema1_st (Suc d) doc s V =
                      (case ?PS d of
                         None \<Rightarrow> None
                       | Some (Inl e) \<Rightarrow> Some (Inl e)
                       | Some (Inr (ps', visited')) \<Rightarrow> ?I d ps' visited')"
              using t nr na no unfolding ps by (simp del: field.simps)
            from p us [of d] have pn: "?PS d \<noteq> None" by (auto split: option.splits)
            have pe: "?PS (Suc d) = ?PS d"
            proof (cases "truthy (field s ''properties'')")
              case True
              with pn have "map_st (?K d) ?props V \<noteq> None" by (auto split: option.splits)
              moreover have "\<And>(x :: string \<times> json) v. ?K d x v \<noteq> None \<Longrightarrow> ?K (Suc d) x v = ?K d x v"
              proof -
                fix x :: "string \<times> json" and v
                obtain key val where x: "x = (key, val)" by (cases x)
                assume "?K d x v \<noteq> None"
                with x have "?R d val v \<noteq> None" by (auto split: option.splits)
                from ih [OF this] x show "?K (Suc d) x v = ?K d x v"
                  by (simp del: resolveSchema1_st.simps)
              qed
              ultimately have "map_st (?K (Suc d)) ?props V = map_st (?K d) ?props V"
                by (intro map_st_stable)
              with True show ?thesis by (simp del: field.simps resolveSchema1_st.simps)
            qed simp
            have ie: "\<And>ps' V'. ?PS d = Some (Inr (ps', V')) \<Longrightarrow> ?I (Suc d) ps' V' = ?I d ps' V'"
            proof -
              fix ps' V' assume a: "?PS d = Some (Inr (ps', V'))"
              show "?I (Suc d) ps' V' = ?I d ps' V'"
              proof (cases "truthy (field s ''items'')")
                case True
                with p us [of d] a have "?R d (field s ''items'') V' \<noteq> None"
                  by (auto split: option.splits simp del: resolveSchema1_st.simps field.simps)
                from ih [OF this] True show ?thesis by (simp del: field.simps resolveSchema1_st.simps)
              qed simp
            qed
            from pn obtain a where a: "?PS d = Some a" by auto
            show ?thesis
            proof (cases a)
              case (Inl e)
              with a pe us [of d] us [of "Suc d"] show ?thesis
                by (simp del: field.simps resolveSchema1_st.simps)
            next
              case (Inr b)
              obtain ps' V' where b: "b = (ps', V')" by (cases b)
              with a Inr have "?PS d = Some (Inr (ps', V'))" by simp
              with pe ie [OF this] us [of d] us [of "Suc d"] show ?thesis
                by (simp del: field.simps resolveSchema1_st.simps)
            qed
          qed
        qed
      qed
    qed
  qed
qed

lemma resolveSchema1_st_le:
  "d \<le> d' \<Longrightarrow> resolveSchema1_st d doc s V \<noteq> None \<Longrightarrow>
   resolveSchema1_st d' doc s V = resolveSchema1_st d doc s V"
proof (induction d')
  case 0
  then show ?case by simp
next
  case (Suc d')
  show ?case
  proof (cases "d = Suc d'")
    case True
    then show ?thesis by simp
  next
    case False
    with Suc.prems have "d \<le> d'" by simp
    from Suc.IH [OF this Suc.prems(2)] have e: "resolveSchema1_st d' doc s V = resolveSchema1_st d doc s V" .
    with Suc.prems(2) have "resolveSchema1_st d' doc s V \<noteq> None" by simp
    from resolveSchema1_st_Suc [OF this] e show ?thesis by simp
  qed
qed

lemma resolveSchema1_st_sound:
  assumes "resolveSchema1_st d doc s V = Some a"
  shows "a = returning (resolveSchema1 doc s V) V"
proof -
  from resolveSchema1_st_agrees [of doc s V] obtain d0 where
    b: "\<forall>k\<ge>d0. resolveSchema1_st k doc s V = Some (returning (resolveSchema1 doc s V) V)" by blast
  then have "resolveSchema1_st (max d d0) doc s V = Some (returning (resolveSchema1 doc s V) V)" by simp
  moreover from assms have "resolveSchema1_st d doc s V \<noteq> None" by simp
  then have "resolveSchema1_st (max d d0) doc s V = resolveSchema1_st d doc s V"
    by (intro resolveSchema1_st_le) simp_all
  ultimately show ?thesis using assms by simp
qed

text \<open>
  Claim C9. The first resolver, run on a fragment, a document and a set of visited
  references, ends within some depth of nested calls; whatever depth is allowed, its outcome
  is that of \<open>resolveSchema1\<close>; and a call that returns a schema returns the set as it
  was, so that resolving the fragment again, on the set the first resolution left, returns
  the same schema. The second resolver gives the same outcome for any two depths of the call
  stack that it does not exceed.
\<close>

theorem resolver_deterministic:
  "(\<exists>depth. resolveSchema1_st depth doc schema visited \<noteq> None)
   \<and> (resolveSchema1_st d doc schema visited = Some a \<longrightarrow>
        a = returning (resolveSchema1 doc schema visited) visited)
   \<and> (resolveSchema1_st d doc schema visited = Some (Inr (r, visited'))
        \<and> resolveSchema1_st d' doc schema visited' = Some (Inr (r', visited''))
        \<longrightarrow> r' = r \<and> visited'' = visited' \<and> visited' = visited)
   \<and> (resolveSchema2 is3 n doc schema \<noteq> Inl RangeError
        \<and> resolveSchema2 is3 m doc schema \<noteq> Inl RangeError
        \<longrightarrow> resolveSchema2 is3 n doc schema = resolveSchema2 is3 m doc schema)"
proof (intro conjI impI)
  from resolveSchema1_st_agrees [of doc schema visited]
  show "\<exists>depth. resolveSchema1_st depth doc schema visited \<noteq> None" by (metis option.distinct(1) order_refl)
next
  assume "resolveSchema1_st d doc schema visited = Some a"
  then show "a = returning (resolveSchema1 doc schema visited) visited" by (rule resolveSchema1_st_sound)
next
  assume a: "resolveSchema1_st d doc schema visited = Some (Inr (r, visited'))
        \<and> resolveSchema1_st d' doc schema visited' = Some (Inr (r', visited''))"
  from a resolveSchema1_st_sound [of d doc schema visited "Inr (r, visited')"]
  have 1: "resolveSchema1 doc schema visited = Inr r" "visited' = visited"
    by (auto simp: returning_def split: sum.splits)
  from a 1 resolveSchema1_st_sound [of d' doc schema visited "Inr (r', visited'')"]
  have 2: "r' = r" "visited'' = visited"
    by (auto simp: returning_def split: sum.splits)
  from 1 2 show "r' = r" by simp
  from 1 2 show "visited'' = visited'" by simp
  from 1 show "visited' = visited" by simp
next
  assume "resolveSchema2 is3 n doc schema \<noteq> Inl RangeError
        \<and> resolveSchema2 is3 m doc schema \<noteq> Inl RangeError"
  then show "resolveSchema2 is3 n doc schema = resolveSchema2 is3 m doc schema"
    by (intro resolveSchema2_stack) simp_all
qed

theorem resolver_deterministic_witness:
  "resolveSchema1_st 3 doc_cyclic (JObj [(''$ref'', JStr ''#/definitions/A'')]) []
     = Some (Inr (JObj [(''type'', JStr ''object''),
                        (''properties'', JObj [(''next'', placeholder_schema ''#/definitions/A'')])], []))
   \<and> resolveSchema1_st 4 doc_cyclic (JObj [(''$ref'', JStr ''#/definitions/A'')]) []
     = Some (Inr (JObj [(''type'', JStr ''object''),
                        (''properties'', JObj [(''next'', placeholder_schema ''#/definitions/A'')])], []))
   \<and> returning (resolveSchema1 doc_cyclic (JObj [(''$ref'', JStr ''#/definitions/A'')]) []) []
     = Inr (JObj [(''type'', JStr ''object''),
                  (''properties'', JObj [(''next'', placeholder_schema ''#/definitions/A'')])], [])
   \<and> resolveSchema2 False 2 doc_defs (JObj [(''$ref'', JStr ''#/definitions/A'')])
     = Inr (JObj [(''type'', JStr ''integer'')])
   \<and> resolveSchema2 False 3 doc_defs (JObj [(''$ref'', JStr ''#/definitions/A'')])
     = Inr (JObj [(''type'', JStr ''integer'')])"
proof -
  let ?ref = "JObj [(''$ref'', JStr ''#/definitions/A'')]"
  let ?R = "JObj [(''type'', JStr ''object''),
                  (''properties'', JObj [(''next'', placeholder_schema ''#/definitions/A'')])]"
  have a: "resolveSchema1_st 3 doc_cyclic ?ref [] = Some (Inr (?R, []))" by code_simp
  have b: "resolveSchema1_st 4 doc_cyclic ?ref [] = Some (Inr (?R, []))" by code_simp
  have c: "resolveSchema2 False 2 doc_defs ?ref = Inr (JObj [(''type'', JStr ''integer'')])" by code_simp
  have c': "resolveSchema2 False 2 doc_defs ?ref \<noteq> Inl RangeError" by (simp only: c) simp
  have d': "resolveSchema2 False 3 doc_defs ?ref \<noteq> Inl RangeError" by code_simp
  from resolver_deterministic [where doc = doc_cyclic and schema = ?ref and visited = "[]" and d = 3
      and a = "Inr (?R, [])", THEN conjunct2, THEN conjunct1, rule_format, OF a]
  have e: "returning (resolveSchema1 doc_cyclic ?ref []) [] = Inr (?R, [])" by simp
  from resolver_deterministic [where doc = doc_defs and schema = ?ref and ?is3.0 = False and n = 2 and m = 3,
      THEN conjunct2, THEN conjunct2, THEN conjunct2, rule_format, OF conjI, OF c' d']
  have "resolveSchema2 False 2 doc_defs ?ref = resolveSchema2 False 3 doc_defs ?ref" .
  with c have d: "resolveSchema2 False 3 doc_defs ?ref = Inr (JObj [(''type'', JStr ''integer'')])" by simp
  from a b e c d show ?thesis by (simp only: simp_thms)
qed

end
